theory Spec2Isabelle
  imports Main
begin

section \<open>The EventSource client: data model\<close>

text \<open>
  The embedding follows the constructor of class \<open>EventSource\<close>: its closure variables are
  the fields of one record, each callback (\<open>onStart\<close>, \<open>onProgress\<close>, \<open>onFinish\<close>,
  \<open>onTimeout\<close>, \<open>close\<close>) is a function from the record to the record. A JavaScript string
  is a \<open>string\<close>; one \<open>char\<close> stands for one UTF-16 code unit below 256. Numbers are
  unbounded integers: every duration the code stores has passed through \<open>clampDuration\<close>,
  and below \<open>2^53\<close> the arithmetic of the code is exact.
\<close>

datatype ready = WAITING | CONNECTING | OPEN | CLOSED

datatype line_state = AFTER_CR | FIELD_START | FIELD | VALUE_START | VALUE

type_synonym headers = "(string \<times> string) list"

text \<open>
  The value handed to \<open>onFinish\<close>: the error synthesised by the watchdog
  (\<open>'No activity within ' + heartbeatTimeout + ' milliseconds. ' + ...\<close>, with the number of
  chars received, or \<open>None\<close> for \<open>'No response received.'\<close>), an error of the transport,
  or the error of a reference to an identifier that is not defined.
\<close>

datatype finish_error = NoActivity int "nat option" | TransportError string | ReferenceError string

datatype notification =
    OpenEvent int string headers
  | ConnectionError int string headers
  | MessageEvent string string string
  | ErrorEvent "finish_error option"

text \<open>
  What happens at the border of the connection, in order: an event given to
  \<open>dispatchEvent\<close> (tagged with \<open>currentState\<close> at that moment), the same event given to an
  \<open>on...\<close> handler by \<open>fire\<close> (tagged likewise), a timer armed with its delay, a timer
  cleared, a transport opened on a request URL, a transport aborted, a call of the host's
  global function \<open>close\<close> (in a browser, \<open>window.close\<close>), and a call of the connection's
  own \<open>close\<close>.
\<close>

datatype effect =
    Dispatched ready notification
  | Fired ready notification
  | SetTimeout int
  | ClearTimeout
  | TransportOpen string
  | TransportAbort
  | GlobalClose
  | CloseCalled

text \<open>
  The listeners. The only thing a listener can do to the connection is to call its
  \<open>close()\<close>. \<open>listeners\<close> says, from what happened so far and the event, whether one of the
  listeners registered with \<open>addEventListener\<close> does so while \<open>dispatchEvent\<close> runs;
  \<open>handler\<close> says for \<open>onopen\<close>, \<open>onmessage\<close> and \<open>onerror\<close> whether the property holds a
  function (\<open>None\<close> if not) and whether that function calls \<open>close()\<close>.
\<close>

datatype slot = Onopen | Onmessage | Onerror

record sink =
  listeners :: "effect list \<Rightarrow> notification \<Rightarrow> bool"
  handler :: "slot \<Rightarrow> effect list \<Rightarrow> notification \<Rightarrow> bool option"

record conn =
  url :: string
  readyState :: ready
  initialRetry :: int
  heartbeatTimeout :: int
  lastEventId :: string
  retry :: int
  wasActivity :: "int option"
  textLength :: nat
  abortController :: bool
  timeout :: "int option"
  currentState :: ready
  dataBuffer :: string
  lastEventIdBuffer :: string
  eventTypeBuffer :: string
  textBuffer :: string
  state :: line_state
  fieldStart :: int
  valueStart :: int
  effects :: "effect list"

section \<open>Strings and numbers of the host language\<close>

abbreviation LF :: char where "LF \<equiv> CHR 0x0A"
abbreviation CR :: char where "CR \<equiv> CHR 0x0D"

definition is_terminator :: "char \<Rightarrow> bool" where
  "is_terminator c = (c = LF \<or> c = CR)"

text \<open>\<open>String.prototype.slice(start, end)\<close>, negative indices counting from the end.\<close>

definition slice :: "string \<Rightarrow> int \<Rightarrow> int \<Rightarrow> string" where
  "slice s start end' =
     (let len = int (length s);
          from = (if start < 0 then max (len + start) 0 else min start len);
          to = (if end' < 0 then max (len + end') 0 else min end' len)
      in take (nat (to - from)) (drop (nat from) s))"

definition slice_from :: "string \<Rightarrow> int \<Rightarrow> string" where
  "slice_from s start = slice s start (int (length s))"

text \<open>\<open>charCodeAt\<close>: \<open>None\<close> is the NaN of an index out of range.\<close>

definition charCodeAt :: "string \<Rightarrow> int \<Rightarrow> char option" where
  "charCodeAt s i = (if 0 \<le> i \<and> i < int (length s) then Some (s ! nat i) else None)"

text \<open>White space of \<open>\s\<close> and of \<open>parseInt\<close>, among the code units below 256.\<close>

definition is_space :: "char \<Rightarrow> bool" where
  "is_space c = (c \<in> {CHR 0x09, CHR 0x0A, CHR 0x0B, CHR 0x0C, CHR 0x0D, CHR 0x20, CHR 0xA0})"

definition is_digit :: "char \<Rightarrow> bool" where
  "is_digit c = (48 \<le> (of_char c :: nat) \<and> (of_char c :: nat) \<le> 57)"

definition digit_value :: "char \<Rightarrow> nat" where
  "digit_value c = of_char c - 48"

definition digits_value :: "string \<Rightarrow> nat" where
  "digits_value ds = foldl (\<lambda>a c. 10 * a + digit_value c) 0 ds"

text \<open>
  \<open>parseInt(value, 10)\<close>: leading white space, an optional sign, then the longest run of
  decimal digits; \<open>None\<close> is NaN.
\<close>

definition parseInt :: "string \<Rightarrow> int option" where
  "parseInt str =
     (let S = dropWhile is_space str;
          sign = (case S of [] \<Rightarrow> 1 | c # r \<Rightarrow> if c = CHR ''-'' then - 1 else (1::int));
          S1 = (case S of [] \<Rightarrow> [] | c # r \<Rightarrow> if c = CHR ''-'' \<or> c = CHR ''+'' then r else S);
          Z = takeWhile is_digit S1
      in if Z = [] then None else Some (sign * int (digits_value Z)))"

definition MINIMUM_DURATION :: int where "MINIMUM_DURATION = 1000"
definition MAXIMUM_DURATION :: int where "MAXIMUM_DURATION = 18000000"

definition clampDuration :: "int \<Rightarrow> int" where
  "clampDuration n = min (max n MINIMUM_DURATION) MAXIMUM_DURATION"

definition parseDuration :: "string option \<Rightarrow> int \<Rightarrow> int" where
  "parseDuration value def =
     clampDuration (case value of None \<Rightarrow> def
                    | Some v \<Rightarrow> (case parseInt v of None \<Rightarrow> def | Some n \<Rightarrow> n))"

text \<open>\<open>s.replace(/\s+/g, ' ')\<close>\<close>

function collapse_ws :: "string \<Rightarrow> string" where
  "collapse_ws [] = []"
| "collapse_ws (c # cs) =
     (if is_space c then CHR '' '' # collapse_ws (dropWhile is_space cs)
      else c # collapse_ws cs)"
  by pat_completeness auto
termination
  by (relation "measure length") (auto simp: le_imp_less_Suc length_dropWhile_le)

definition ascii_lower :: "char \<Rightarrow> char" where
  "ascii_lower c =
     (if 65 \<le> (of_char c :: nat) \<and> (of_char c :: nat) \<le> 90 then char_of (of_char c + (32::nat)) else c)"

text \<open>\<open>/^text\/event\-stream(;.*)?$/i.test(contentType)\<close>; the dot matches no line terminator.\<close>

definition contentTypeRegExp_test :: "string \<Rightarrow> bool" where
  "contentTypeRegExp_test ct =
     (map ascii_lower (take 17 ct) = ''text/event-stream'' \<and>
      (drop 17 ct = [] \<or>
       (hd (drop 17 ct) = CHR '';'' \<and> (\<forall>c \<in> set (drop 18 ct). \<not> is_terminator c))))"

section \<open>The callbacks\<close>

definition close :: "conn \<Rightarrow> conn" where
  "close s =
     (let s0 = s\<lparr>effects := effects s @ [CloseCalled]\<rparr>;
          s1 = s0\<lparr>currentState := CLOSED\<rparr>;
          s2 = (if abortController s1
                then s1\<lparr>effects := effects s1 @ [TransportAbort], abortController := False\<rparr>
                else s1);
          s3 = (if timeout s2 \<noteq> None
                then s2\<lparr>effects := effects s2 @ [ClearTimeout], timeout := None\<rparr>
                else s2)
      in s3\<lparr>readyState := CLOSED\<rparr>)"

text \<open>\<open>this.dispatchEvent(event)\<close>: a listener may call \<open>close()\<close> before control returns.\<close>

definition dispatchEvent :: "sink \<Rightarrow> notification \<Rightarrow> conn \<Rightarrow> conn" where
  "dispatchEvent k ev s =
     (let s' = s\<lparr>effects := effects s @ [Dispatched (currentState s) ev]\<rparr>
      in if listeners k (effects s) ev then close s' else s')"

text \<open>\<open>fire(this.on..., event)\<close>: nothing happens when the property is not a function.\<close>

definition fire :: "sink \<Rightarrow> slot \<Rightarrow> notification \<Rightarrow> conn \<Rightarrow> conn" where
  "fire k sl ev s =
     (case handler k sl (effects s) ev of
        None \<Rightarrow> s
      | Some closes \<Rightarrow>
          (let s' = s\<lparr>effects := effects s @ [Fired (currentState s) ev]\<rparr>
           in if closes then close s' else s'))"

text \<open>
  The handler that follows \<open>dispatchEvent\<close>: \<open>onopen\<close> for the open event, \<open>onerror\<close> for the
  two error events, and for a message the chain on its type (\<open>open\<close>, \<open>message\<close>, \<open>error\<close>,
  and no handler for any other type).
\<close>

definition slot_of :: "notification \<Rightarrow> slot option" where
  "slot_of ev =
     (case ev of
        OpenEvent status statusText hs \<Rightarrow> Some Onopen
      | ConnectionError status statusText hs \<Rightarrow> Some Onerror
      | ErrorEvent error \<Rightarrow> Some Onerror
      | MessageEvent ty d i \<Rightarrow>
          if ty = ''open'' then Some Onopen
          else if ty = ''message'' then Some Onmessage
          else if ty = ''error'' then Some Onerror
          else None)"

definition dispatch :: "sink \<Rightarrow> notification \<Rightarrow> conn \<Rightarrow> conn" where
  "dispatch k ev s =
     (let s1 = dispatchEvent k ev s
      in case slot_of ev of None \<Rightarrow> s1 | Some sl \<Rightarrow> fire k sl ev s1)"

text \<open>
  \<open>onStart\<close>. In the branch of a bad status or content type the source calls a bare
  \<open>close()\<close>. The connection's own close is the instance property \<open>this.close\<close>, assigned at
  the end of the constructor; no variable \<open>close\<close> is in scope, so the call goes to the
  global function of that name where the host has one (\<open>globalClose\<close>), and is a
  ReferenceError, thrown out of \<open>onStart\<close> before the error event is made, where it has none.
  \<open>Inl\<close> is the thrown error.
\<close>

definition onStart ::
  "bool \<Rightarrow> sink \<Rightarrow> int \<Rightarrow> int \<Rightarrow> string \<Rightarrow> string option \<Rightarrow> headers \<Rightarrow> conn \<Rightarrow> finish_error + conn" where
  "onStart globalClose k now status statusText contentType responseHeaders s =
     (if currentState s = CONNECTING then
        (if status = 200 \<and> contentType \<noteq> None \<and> contentTypeRegExp_test (the contentType) then
           Inr (dispatch k (OpenEvent status statusText responseHeaders)
                  (s\<lparr>currentState := OPEN, wasActivity := Some now, retry := initialRetry s,
                     readyState := OPEN\<rparr>))
         else
           (let statusText' = (if status \<noteq> 200 \<and> statusText \<noteq> [] then collapse_ws statusText
                               else statusText)
            in if globalClose then
                 Inr (dispatch k (ConnectionError status statusText' responseHeaders)
                        (s\<lparr>effects := effects s @ [GlobalClose]\<rparr>))
               else Inl (ReferenceError ''close'')))
      else Inr s)"

definition onFinish :: "sink \<Rightarrow> finish_error option \<Rightarrow> conn \<Rightarrow> conn" where
  "onFinish k error s =
     (if currentState s = OPEN \<or> currentState s = CONNECTING then
        (let s1 = s\<lparr>currentState := WAITING\<rparr>;
             s2 = (if timeout s1 \<noteq> None
                   then s1\<lparr>effects := effects s1 @ [ClearTimeout], timeout := None\<rparr>
                   else s1);
             s3 = s2\<lparr>effects := effects s2 @ [SetTimeout (retry s2)], timeout := Some (retry s2)\<rparr>;
             s4 = s3\<lparr>retry := clampDuration (min (initialRetry s3 * 16) (retry s3 * 2))\<rparr>;
             s5 = s4\<lparr>readyState := CONNECTING\<rparr>
         in dispatch k (ErrorEvent error) s5)
      else s)"


text \<open>
  The start of a response in \<open>FetchTransport.open\<close>: \<open>onStartCallback\<close> is called inside the
  promise chain, so an error it throws goes to the \<open>catch\<close>, which hands every error but an
  AbortError on, and from there to \<open>onFinishCallback\<close>.
\<close>

definition transport_start ::
  "bool \<Rightarrow> sink \<Rightarrow> int \<Rightarrow> int \<Rightarrow> string \<Rightarrow> string option \<Rightarrow> headers \<Rightarrow> conn \<Rightarrow> conn" where
  "transport_start globalClose k now status statusText contentType responseHeaders s =
     (case onStart globalClose k now status statusText contentType responseHeaders s of
        Inr s' \<Rightarrow> s'
      | Inl error \<Rightarrow> onFinish k (Some error) s)"

subsection \<open>The request URL of an attempt\<close>

text \<open>
  \<open>encodeURIComponent\<close> on code units below 256: the unreserved characters stay, every
  other one becomes the percent-escaped bytes of its UTF-8 encoding.
\<close>

definition unreserved :: "char \<Rightarrow> bool" where
  "unreserved c =
     (let n = (of_char c :: nat)
      in (65 \<le> n \<and> n \<le> 90) \<or> (97 \<le> n \<and> n \<le> 122) \<or> (48 \<le> n \<and> n \<le> 57) \<or>
         c \<in> set ''-_.!~*'()'')"

definition percent :: "nat \<Rightarrow> string" where
  "percent b = [CHR ''%'', ''0123456789ABCDEF'' ! (b div 16), ''0123456789ABCDEF'' ! (b mod 16)]"

definition encode_unit :: "char \<Rightarrow> string" where
  "encode_unit c =
     (let n = (of_char c :: nat)
      in if unreserved c then [c]
         else if n < 128 then percent n
         else percent (192 + n div 64) @ percent (128 + n mod 64))"

definition encodeURIComponent :: "string \<Rightarrow> string" where
  "encodeURIComponent s = concat (map encode_unit s)"

definition lastEventIdQueryParameterName :: string where
  "lastEventIdQueryParameterName = ''lastEventId''"

text \<open>
  One match of \<open>/(?:^|&)([^=&]*)(?:=[^&]*)?/\<close> on the text after its \<open>^\<close> or \<open>&\<close>:
  the parameter name and the optional \<open>=value\<close>, both greedy.
\<close>

definition param_name :: "string \<Rightarrow> string" where
  "param_name q = takeWhile (\<lambda>c. c \<noteq> CHR ''='' \<and> c \<noteq> CHR ''&'') q"

definition param_value :: "string \<Rightarrow> string" where
  "param_value q =
     (case drop (length (param_name q)) q of
        [] \<Rightarrow> []
      | c # r \<Rightarrow> if c = CHR ''='' then c # takeWhile (\<lambda>c. c \<noteq> CHR ''&'') r else [])"

text \<open>The replacement function: \<open>paramName === lastEventIdQueryParameterName ? '' : p\<close>.\<close>

definition replacement :: "string \<Rightarrow> string \<Rightarrow> string" where
  "replacement p paramName = (if paramName = lastEventIdQueryParameterName then [] else p)"

text \<open>
  The global replace once \<open>lastIndex\<close> is past 0, where only \<open>&\<close> can start a match:
  text before the next \<open>&\<close> is copied, the match is replaced, the search goes on after it.
\<close>

function replace_rest :: "string \<Rightarrow> string" where
  "replace_rest [] = []"
| "replace_rest (c # cs) =
     (if c = CHR ''&''
      then replacement (c # param_name cs @ param_value cs) (param_name cs) @
           replace_rest (drop (length (param_name cs) + length (param_value cs)) cs)
      else c # replace_rest cs)"
  by pat_completeness auto
termination
  by (relation "measure length") auto

text \<open>
  \<open>query.replace(/(?:^|&)([^=&]*)(?:=[^&]*)?/g, ...)\<close>. At index 0 the alternative \<open>^\<close>
  always matches. When that first match is empty (the query is empty or starts with
  \<open>&\<close>), the replace advances \<open>lastIndex\<close> to 1 and searches on from there, so the code
  unit at index 0 is copied as it is.
\<close>

definition replace_params :: "string \<Rightarrow> string" where
  "replace_params q =
     (let p = param_name q @ param_value q
      in if p = [] then (case q of [] \<Rightarrow> [] | c # cs \<Rightarrow> c # replace_rest cs)
         else replacement p (param_name q) @ replace_rest (drop (length p) q))"

definition indexOf :: "string \<Rightarrow> char \<Rightarrow> int" where
  "indexOf s c = (if c \<in> set s then int (length (takeWhile (\<lambda>x. x \<noteq> c) s)) else - 1)"

definition requestURL :: "string \<Rightarrow> string \<Rightarrow> string" where
  "requestURL u lastId =
     (if slice u 0 5 \<noteq> ''data:'' \<and> slice u 0 5 \<noteq> ''blob:'' then
        (if lastId \<noteq> [] then
           (let i = indexOf u CHR ''?''
            in (if i = - 1 then u
                else slice u 0 (i + 1) @ replace_params (slice_from u (i + 1))) @
               (if indexOf u CHR ''?'' = - 1 then ''?'' else ''&'') @
               lastEventIdQueryParameterName @ ''='' @ encodeURIComponent lastId)
         else u)
      else u)"

subsection \<open>The parser\<close>

text \<open>The \<open>if\<close> chain on the field name of a finished line.\<close>

definition field_effect :: "string \<Rightarrow> string \<Rightarrow> conn \<Rightarrow> conn" where
  "field_effect field value s =
     (if field = ''data'' then s\<lparr>dataBuffer := dataBuffer s @ [LF] @ value\<rparr>
      else if field = ''id'' then s\<lparr>lastEventIdBuffer := value\<rparr>
      else if field = ''event'' then s\<lparr>eventTypeBuffer := value\<rparr>
      else if field = ''retry'' then
        (let s1 = s\<lparr>initialRetry := parseDuration (Some value) (initialRetry s)\<rparr>
         in s1\<lparr>retry := initialRetry s1\<rparr>)
      else if field = ''heartbeatTimeout'' then
        (let s1 = s\<lparr>heartbeatTimeout := parseDuration (Some value) (heartbeatTimeout s)\<rparr>
         in if timeout s1 \<noteq> None
            then s1\<lparr>effects := effects s1 @ [ClearTimeout, SetTimeout (heartbeatTimeout s1)],
                    timeout := Some (heartbeatTimeout s1)\<rparr>
            else s1)
      else s)"

text \<open>A line terminator met in a state other than \<open>FIELD_START\<close>: the line is a field.\<close>

definition field_line :: "string \<Rightarrow> nat \<Rightarrow> conn \<Rightarrow> conn" where
  "field_line chunk position s =
     (let s1 = (if state s = FIELD then s\<lparr>valueStart := int position + 1\<rparr> else s);
          field = slice chunk (fieldStart s1) (valueStart s1 - 1);
          value = slice chunk
                    (valueStart s1 +
                      (if valueStart s1 < int position \<and>
                          charCodeAt chunk (valueStart s1) = Some CHR '' ''
                       then 1 else 0))
                    (int position)
      in field_effect field value s1)"

text \<open>
  A line terminator met in state \<open>FIELD_START\<close>: the blank line. The flag says that the
  \<open>return\<close> after the delivery was taken.
\<close>

definition flush :: "sink \<Rightarrow> conn \<Rightarrow> bool \<times> conn" where
  "flush k s =
     (if dataBuffer s \<noteq> [] then
        (let s1 = s\<lparr>lastEventId := lastEventIdBuffer s\<rparr>;
             s2 = (if eventTypeBuffer s1 = [] then s1\<lparr>eventTypeBuffer := ''message''\<rparr> else s1);
             s3 = dispatch k (MessageEvent (eventTypeBuffer s2) (slice_from (dataBuffer s2) 1)
                                (lastEventIdBuffer s2)) s2
         in if currentState s3 = CLOSED then (True, s3)
            else (False, s3\<lparr>dataBuffer := [], eventTypeBuffer := []\<rparr>))
      else (False, s\<lparr>dataBuffer := [], eventTypeBuffer := []\<rparr>))"

text \<open>A code unit that is no line terminator.\<close>

definition field_char :: "char \<Rightarrow> nat \<Rightarrow> conn \<Rightarrow> conn" where
  "field_char c position s =
     (let s1 = (if state s = FIELD_START then s\<lparr>fieldStart := int position, state := FIELD\<rparr> else s)
      in if state s1 = FIELD then
           (if c = CHR '':'' then s1\<lparr>valueStart := int position + 1, state := VALUE_START\<rparr> else s1)
         else if state s1 = VALUE_START then s1\<lparr>state := VALUE\<rparr>
         else s1)"

text \<open>The body of the scanning loop at one position; the flag is the early \<open>return\<close>.\<close>

definition step :: "sink \<Rightarrow> string \<Rightarrow> nat \<Rightarrow> conn \<Rightarrow> bool \<times> conn" where
  "step k chunk position s =
     (let c = chunk ! position
      in if state s = AFTER_CR \<and> c = LF then (False, s\<lparr>state := FIELD_START\<rparr>)
         else
           (let s1 = (if state s = AFTER_CR then s\<lparr>state := FIELD_START\<rparr> else s)
            in if c = CR \<or> c = LF then
                 (let s2 = (if state s1 \<noteq> FIELD_START then field_line chunk position s1 else s1);
                      (returned, s3) = (if state s2 = FIELD_START then flush k s2 else (False, s2))
                  in if returned then (True, s3)
                     else (False, s3\<lparr>state := (if c = CR then AFTER_CR else FIELD_START)\<rparr>))
               else (False, field_char c position s1)))"

function scan :: "sink \<Rightarrow> string \<Rightarrow> nat \<Rightarrow> conn \<Rightarrow> conn" where
  "scan k chunk position s =
     (if position < length chunk then
        (let (returned, s') = step k chunk position s
         in if returned then s' else scan k chunk (position + 1) s')
      else s)"
  by pat_completeness auto
termination
  by (relation "measure (\<lambda>(k, chunk, position, s). length chunk - position)") auto

declare scan.simps [simp del]

text \<open>The first loop of \<open>onProgress\<close>: the index of the last line terminator, or \<open>-1\<close>.\<close>

definition lastTerminator :: "string \<Rightarrow> int" where
  "lastTerminator textChunk =
     foldl (\<lambda>n i. if textChunk ! i = LF \<or> textChunk ! i = CR then int i else n) (- 1)
       [0 ..< length textChunk]"

definition onProgress :: "sink \<Rightarrow> int \<Rightarrow> string \<Rightarrow> conn \<Rightarrow> conn" where
  "onProgress k now textChunk s =
     (if currentState s = OPEN then
        (let n = lastTerminator textChunk;
             chunk = (if n \<noteq> - 1 then textBuffer s else []) @ slice textChunk 0 (n + 1);
             s1 = s\<lparr>textBuffer := (if n = - 1 then textBuffer s else []) @ slice_from textChunk (n + 1)\<rparr>;
             s2 = (if textChunk \<noteq> []
                   then s1\<lparr>wasActivity := Some now,
                           textLength := textLength s1 + length textChunk\<rparr>
                   else s1)
         in scan k chunk 0 s2)
      else s)"

subsection \<open>Timers\<close>

text \<open>\<open>!wasActivity\<close>: the flag is \<open>false\<close>, or the time stamp 0.\<close>

definition falsy :: "int option \<Rightarrow> bool" where
  "falsy w = (w = None \<or> w = Some 0)"

text \<open>
  \<open>onTimeout\<close> is the callback of both timers: the watchdog of a running attempt, and the
  retry timer that starts the next attempt. \<open>now\<close> is \<open>Date.now()\<close>. \<open>transport.open\<close> starts
  the request and returns its abort controller; \<open>fetch\<close> reports a failure through its
  promise, that is through \<open>onFinish\<close>, so the \<open>catch\<close> around the call is not taken.
\<close>

definition onTimeout :: "sink \<Rightarrow> int \<Rightarrow> conn \<Rightarrow> conn" where
  "onTimeout k now s =
     (let s0 = s\<lparr>timeout := None\<rparr>
      in if currentState s0 \<noteq> WAITING then
           (if falsy (wasActivity s0) \<and> abortController s0 then
              (let s1 = onFinish k
                          (Some (NoActivity (heartbeatTimeout s0)
                                   (if currentState s0 = CONNECTING then None
                                    else Some (textLength s0)))) s0
               in if abortController s1
                  then s1\<lparr>effects := effects s1 @ [TransportAbort], abortController := False\<rparr>
                  else s1)
            else
              (let nextHeartbeat =
                     max ((case wasActivity s0 of Some t \<Rightarrow> t | None \<Rightarrow> now)
                            + heartbeatTimeout s0 - now) 1
               in s0\<lparr>wasActivity := None,
                      effects := effects s0 @ [SetTimeout nextHeartbeat],
                      timeout := Some nextHeartbeat\<rparr>))
         else
           (let s1 = s0\<lparr>wasActivity := None, textLength := 0,
                        effects := effects s0 @ [SetTimeout (heartbeatTimeout s0)],
                        timeout := Some (heartbeatTimeout s0)\<rparr>;
                s2 = s1\<lparr>currentState := CONNECTING, dataBuffer := [], eventTypeBuffer := [],
                        lastEventIdBuffer := lastEventId s1, textBuffer := [],
                        fieldStart := 0, valueStart := 0, state := FIELD_START\<rparr>
            in s2\<lparr>effects := effects s2 @ [TransportOpen (requestURL (url s2) (lastEventId s2))],
                   abortController := True\<rparr>))"

text \<open>The state the constructor sets up before it calls \<open>onTimeout()\<close> for the first attempt.\<close>

definition initial :: "string \<Rightarrow> conn" where
  "initial u =
     \<lparr>url = u, readyState = CONNECTING, initialRetry = clampDuration 1000,
      heartbeatTimeout = parseDuration None 45000, lastEventId = [],
      retry = clampDuration 1000, wasActivity = None, textLength = 0,
      abortController = False, timeout = None, currentState = WAITING,
      dataBuffer = [], lastEventIdBuffer = [], eventTypeBuffer = [], textBuffer = [],
      state = FIELD_START, fieldStart = 0, valueStart = 0, effects = []\<rparr>"

definition construct :: "sink \<Rightarrow> int \<Rightarrow> string \<Rightarrow> conn" where
  "construct k now u = onTimeout k now (initial u)"

section \<open>Lines: what the scanning loop computes\<close>

text \<open>
  Field name and value of a line: the name runs to the first colon, the value starts after
  it, less one leading space; a line without a colon is a name with the empty value.
\<close>

definition line_field :: "string \<Rightarrow> string" where
  "line_field L = takeWhile (\<lambda>c. c \<noteq> CHR '':'') L"

definition line_value :: "string \<Rightarrow> string" where
  "line_value L =
     (case dropWhile (\<lambda>c. c \<noteq> CHR '':'') L of
        [] \<Rightarrow> []
      | c # r \<Rightarrow> (case r of [] \<Rightarrow> [] | d # r' \<Rightarrow> if d = CHR '' '' then r' else r))"

text \<open>
  The effect of the terminator \<open>t\<close> that ends line \<open>L\<close>: a blank line flushes, any other
  line is a field. The flag is the early \<open>return\<close> of the loop.
\<close>

definition end_of_line :: "sink \<Rightarrow> string \<Rightarrow> char \<Rightarrow> conn \<Rightarrow> bool \<times> conn" where
  "end_of_line k L t s =
     (let (returned, s') = (if L = [] then flush k s
                            else (False, field_effect (line_field L) (line_value L) s))
      in if returned then (True, s')
         else (False, s'\<lparr>state := (if t = CR then AFTER_CR else FIELD_START)\<rparr>))"

text \<open>
  The scanning loop seen line by line, on a text of complete lines: a line feed right after
  a carriage return is swallowed, every other terminator ends a line.
\<close>

function run_lines :: "sink \<Rightarrow> string \<Rightarrow> conn \<Rightarrow> conn" where
  "run_lines k inp s =
     (case inp of
        [] \<Rightarrow> s
      | c # cs \<Rightarrow>
          if state s = AFTER_CR \<and> c = LF then run_lines k cs (s\<lparr>state := FIELD_START\<rparr>)
          else (case dropWhile (\<lambda>c. \<not> is_terminator c) inp of
                  [] \<Rightarrow> s
                | t # rest \<Rightarrow>
                    (let (returned, s') =
                           end_of_line k (takeWhile (\<lambda>c. \<not> is_terminator c) inp) t
                             (s\<lparr>state := FIELD_START\<rparr>)
                     in if returned then s' else run_lines k rest s')))"
  by pat_completeness auto
termination
proof (relation "measure (\<lambda>(k, inp, s). length inp)", goal_cases)
  case 1
  show ?case by simp
next
  case (2 k inp s c cs)
  then show ?case by simp
next
  case (3 k inp s c cs t rest x returned s')
  have "length (dropWhile (\<lambda>c. \<not> is_terminator c) inp) \<le> length inp"
    by (rule length_dropWhile_le)
  with 3 show ?case by simp
qed

declare run_lines.simps [simp del]

text \<open>The characters of a line before its terminator, as the loop sees them.\<close>

fun chars :: "nat \<Rightarrow> string \<Rightarrow> conn \<Rightarrow> conn" where
  "chars p [] s = s"
| "chars p (c # cs) s = chars (Suc p) cs (field_char c p s)"

text \<open>
  Variables the parsing of a line never reads before it has written them (the two offsets
  into the chunk), and variables that only \<open>onProgress\<close> itself touches.
\<close>

definition offs :: "int \<Rightarrow> int \<Rightarrow> conn \<Rightarrow> conn" where
  "offs a b s = s\<lparr>fieldStart := a, valueStart := b\<rparr>"

definition activity :: "string \<Rightarrow> int option \<Rightarrow> nat \<Rightarrow> conn \<Rightarrow> conn" where
  "activity tb wa n s = s\<lparr>textBuffer := tb, wasActivity := wa, textLength := n\<rparr>"

definition same_but_offsets :: "conn \<Rightarrow> conn \<Rightarrow> bool" where
  "same_but_offsets c s = (offs 0 0 c = offs 0 0 s)"


text \<open>
  The split of an incoming chunk at its last line terminator: the part up to and with the
  terminator, and the rest.
\<close>

definition complete_part :: "string \<Rightarrow> string" where
  "complete_part textChunk = rev (dropWhile (\<lambda>c. \<not> is_terminator c) (rev textChunk))"

definition pending_part :: "string \<Rightarrow> string" where
  "pending_part textChunk = rev (takeWhile (\<lambda>c. \<not> is_terminator c) (rev textChunk))"

text \<open>What a call of \<open>onProgress\<close> scans, and what it leaves in \<open>textBuffer\<close>.\<close>

definition chunk_of :: "string \<Rightarrow> string \<Rightarrow> string" where
  "chunk_of tb textChunk =
     (if complete_part textChunk = [] then [] else tb @ complete_part textChunk)"

definition buffer_of :: "string \<Rightarrow> string \<Rightarrow> string" where
  "buffer_of tb textChunk =
     (if complete_part textChunk = [] then tb @ textChunk else pending_part textChunk)"

definition core :: "conn \<Rightarrow> conn" where
  "core s = offs 0 0 (activity [] None 0 s)"

text \<open>
  What two runs are compared on: every variable but the time stamp of the last activity
  and the two offsets into the chunk, which are dead between two calls; once the connection
  is closed, nothing reads the buffered tail and the character count any more.
\<close>

definition forget :: "conn \<Rightarrow> conn" where
  "forget s =
     (if currentState s = CLOSED then core s
      else activity (textBuffer s) None (textLength s) (core s))"

text \<open>Feeding chunks one by one, each at its own time.\<close>

definition feed :: "sink \<Rightarrow> (int \<times> string) list \<Rightarrow> conn \<Rightarrow> conn" where
  "feed k timed_chunks s = foldl (\<lambda>s (now, textChunk). onProgress k now textChunk s) s timed_chunks"

section \<open>Texts made of lines\<close>

text \<open>The three line terminators of the grammar, and a text whose lines all use one.\<close>

definition newline :: "string \<Rightarrow> bool" where
  "newline nl = (nl = [LF] \<or> nl = [CR] \<or> nl = [CR, LF])"

definition no_terminator :: "string \<Rightarrow> bool" where
  "no_terminator L = (\<forall>c \<in> set L. \<not> is_terminator c)"

definition lines_text :: "string \<Rightarrow> string list \<Rightarrow> string" where
  "lines_text nl Ls = concat (map (\<lambda>L. L @ nl) Ls)"

definition after_newline :: "string \<Rightarrow> line_state" where
  "after_newline nl = (if nl = [CR] then AFTER_CR else FIELD_START)"

text \<open>The loop on a list of lines: line by line, stopping at the early \<open>return\<close>.\<close>

fun lines_fold :: "sink \<Rightarrow> string \<Rightarrow> string list \<Rightarrow> conn \<Rightarrow> bool \<times> conn" where
  "lines_fold k nl [] s = (False, s)"
| "lines_fold k nl (L # Ls) s =
     (if fst (end_of_line k L (hd nl) (s\<lparr>state := FIELD_START\<rparr>))
      then end_of_line k L (hd nl) (s\<lparr>state := FIELD_START\<rparr>)
      else lines_fold k nl Ls
             ((snd (end_of_line k L (hd nl) (s\<lparr>state := FIELD_START\<rparr>)))
                \<lparr>state := after_newline nl\<rparr>))"

text \<open>The field lines of one record, in order.\<close>

definition fields_fold :: "string list \<Rightarrow> conn \<Rightarrow> conn" where
  "fields_fold Ls s = foldl (\<lambda>s L. field_effect (line_field L) (line_value L) s) s Ls"

text \<open>The values of the lines with a given field name, and the last of them.\<close>

definition field_values :: "string \<Rightarrow> string list \<Rightarrow> string list" where
  "field_values name Ls = map line_value (filter (\<lambda>L. line_field L = name) Ls)"

definition most_recent :: "string \<Rightarrow> string \<Rightarrow> string list \<Rightarrow> string" where
  "most_recent name inherited Ls =
     (if field_values name Ls = [] then inherited else last (field_values name Ls))"

text \<open>\<open>v1\n...\nvk\<close>: the values joined by newlines.\<close>

fun join_values :: "string list \<Rightarrow> string" where
  "join_values [] = []"
| "join_values [v] = v"
| "join_values (v # w # vs) = v @ LF # join_values (w # vs)"

text \<open>The Event Records among the effects, in the order of their delivery.\<close>

fun is_message :: "effect \<Rightarrow> bool" where
  "is_message (Dispatched st (MessageEvent ty d i)) = True"
| "is_message e = False"

definition messages :: "effect list \<Rightarrow> effect list" where
  "messages es = filter is_message es"

text \<open>
  What the delivery of one event can add after its entry: the \<open>on...\<close> handler given the
  same event, and a \<open>close()\<close> called by a listener with what it does.
\<close>

fun is_reaction :: "effect \<Rightarrow> bool" where
  "is_reaction (Fired st ev) = True"
| "is_reaction CloseCalled = True"
| "is_reaction TransportAbort = True"
| "is_reaction ClearTimeout = True"
| "is_reaction e = False"


subsection \<open>Runs of a connection\<close>

text \<open>
  What can reach a connection from outside, each with the time \<open>Date.now()\<close> gives then: the
  three callbacks of a transport (the start of a response, a chunk of text, the end), the
  firing of a timer, and a call of \<open>close()\<close> by the owner of the connection. A run takes
  them in any order: no assumption is made on the transport or on the timers.
\<close>

datatype signal =
    Start int string "string option" headers
  | Progress string
  | Finish "finish_error option"
  | Timeout
  | Close

fun handle :: "bool \<Rightarrow> sink \<Rightarrow> int \<times> signal \<Rightarrow> conn \<Rightarrow> conn" where
  "handle g k (now, Start status statusText contentType responseHeaders) s =
     transport_start g k now status statusText contentType responseHeaders s"
| "handle g k (now, Progress textChunk) s = onProgress k now textChunk s"
| "handle g k (now, Finish error) s = onFinish k error s"
| "handle g k (now, Timeout) s = onTimeout k now s"
| "handle g k (now, Close) s = close s"

definition run :: "bool \<Rightarrow> sink \<Rightarrow> (int \<times> signal) list \<Rightarrow> conn \<Rightarrow> conn" where
  "run g k signals s = foldl (\<lambda>s x. handle g k x s) s signals"



subsection \<open>The watchdog in time\<close>












section \<open>Concrete connections\<close>

text \<open>Listeners that never call \<open>close()\<close>, and listeners that always do.\<close>

definition quiet :: sink where
  "quiet = \<lparr>listeners = (\<lambda>l ev. False), handler = (\<lambda>sl l ev. None)\<rparr>"

definition closing :: sink where
  "closing = \<lparr>listeners = (\<lambda>l ev. True), handler = (\<lambda>sl l ev. None)\<rparr>"


definition example_url :: string where
  "example_url = ''http://example.org/events''"

text \<open>A connection right after construction, and after a good response at time 5.\<close>

definition connecting :: conn where
  "connecting = construct quiet 0 example_url"

definition opened :: conn where
  "opened = transport_start True quiet 5 200 ''OK'' (Some ''text/event-stream'') [] connecting"

text \<open>An open connection that has read one \<open>data\<close> line and not yet the blank line.\<close>

definition pending_record :: conn where
  "pending_record = onProgress quiet 6 (''data: x'' @ [LF]) opened"


section \<open>Proofs\<close>

subsection \<open>Helpers on \<open>close\<close> and \<open>dispatch\<close>\<close>

lemma close_fields:
  "currentState (close s) = CLOSED" "readyState (close s) = CLOSED" "timeout (close s) = None"
  "\<not> abortController (close s)"
  "effects (close s) = effects s @ [CloseCalled] @
      (if abortController s then [TransportAbort] else []) @
      (if timeout s \<noteq> None then [ClearTimeout] else [])"
  by (simp_all add: close_def Let_def)

lemma connecting_fields:
  "currentState connecting = CONNECTING" "timeout connecting = Some 45000"
  "abortController connecting" "effects connecting = [SetTimeout 45000, TransportOpen example_url]"
  by (simp_all add: connecting_def construct_def onTimeout_def initial_def Let_def
        parseDuration_def clampDuration_def MINIMUM_DURATION_def MAXIMUM_DURATION_def
        requestURL_def)

subsection \<open>Host-language helpers\<close>

lemma slice_nat: "slice xs (int a) (int b) = take (b - a) (drop a xs)"
proof -
  have "nat (int b - int a) = b - a" by arith
  then show ?thesis by (auto simp add: slice_def Let_def min_def)
qed

lemma slice_nonneg:
  "0 \<le> a \<Longrightarrow> 0 \<le> b \<Longrightarrow> slice xs a b = take (nat b - nat a) (drop (nat a) xs)"
  using slice_nat [of xs "nat a" "nat b"] by simp

lemma slice_from_nat: "slice_from xs (int a) = drop a xs"
  by (simp add: slice_from_def slice_nat)

subsection \<open>Frames\<close>

lemma offs_sel:
  "effects (offs a b s) = effects s"
  "lastEventId (offs a b s) = lastEventId s"
  "eventTypeBuffer (offs a b s) = eventTypeBuffer s"
  "dataBuffer (offs a b s) = dataBuffer s"
  "lastEventIdBuffer (offs a b s) = lastEventIdBuffer s"
  "initialRetry (offs a b s) = initialRetry s"
  "retry (offs a b s) = retry s"
  "heartbeatTimeout (offs a b s) = heartbeatTimeout s"
  "timeout (offs a b s) = timeout s"
  "state (offs a b s) = state s"
  "currentState (offs a b s) = currentState s"
  "abortController (offs a b s) = abortController s"
  "textBuffer (offs a b s) = textBuffer s"
  "wasActivity (offs a b s) = wasActivity s"
  "textLength (offs a b s) = textLength s"
  "readyState (offs a b s) = readyState s"
  "url (offs a b s) = url s"
  "fieldStart (offs a b s) = a"
  "valueStart (offs a b s) = b"
  by (simp_all add: offs_def)

lemma offs_upd:
  "(offs a b s)\<lparr>effects := x\<rparr> = offs a b (s\<lparr>effects := x\<rparr>)"
  "(offs a b s)\<lparr>lastEventId := y\<rparr> = offs a b (s\<lparr>lastEventId := y\<rparr>)"
  "(offs a b s)\<lparr>eventTypeBuffer := y\<rparr> = offs a b (s\<lparr>eventTypeBuffer := y\<rparr>)"
  "(offs a b s)\<lparr>dataBuffer := y\<rparr> = offs a b (s\<lparr>dataBuffer := y\<rparr>)"
  "(offs a b s)\<lparr>lastEventIdBuffer := y\<rparr> = offs a b (s\<lparr>lastEventIdBuffer := y\<rparr>)"
  "(offs a b s)\<lparr>initialRetry := i\<rparr> = offs a b (s\<lparr>initialRetry := i\<rparr>)"
  "(offs a b s)\<lparr>retry := i\<rparr> = offs a b (s\<lparr>retry := i\<rparr>)"
  "(offs a b s)\<lparr>heartbeatTimeout := i\<rparr> = offs a b (s\<lparr>heartbeatTimeout := i\<rparr>)"
  "(offs a b s)\<lparr>timeout := t\<rparr> = offs a b (s\<lparr>timeout := t\<rparr>)"
  "(offs a b s)\<lparr>state := l\<rparr> = offs a b (s\<lparr>state := l\<rparr>)"
  "(offs a b s)\<lparr>currentState := r\<rparr> = offs a b (s\<lparr>currentState := r\<rparr>)"
  "(offs a b s)\<lparr>readyState := r\<rparr> = offs a b (s\<lparr>readyState := r\<rparr>)"
  "(offs a b s)\<lparr>abortController := f\<rparr> = offs a b (s\<lparr>abortController := f\<rparr>)"
  by (simp_all add: offs_def)

lemma offs_offs: "offs a b (offs c d s) = offs a b s"
  by (simp add: offs_def)

lemma offs_self: "offs (fieldStart s) (valueStart s) s = s"
  by (simp add: offs_def)

lemma close_offs: "close (offs a b s) = offs a b (close s)"
  by (simp add: close_def Let_def offs_sel offs_upd)

lemma dispatchEvent_offs: "dispatchEvent k ev (offs a b s) = offs a b (dispatchEvent k ev s)"
  by (simp add: dispatchEvent_def Let_def offs_upd offs_sel close_offs)

lemma fire_offs: "fire k sl ev (offs a b s) = offs a b (fire k sl ev s)"
  by (simp add: fire_def Let_def offs_upd offs_sel close_offs split: option.splits)

lemma dispatch_offs: "dispatch k ev (offs a b s) = offs a b (dispatch k ev s)"
  by (simp add: dispatch_def Let_def dispatchEvent_offs fire_offs split: option.splits)

lemma flush_offs: "flush k (offs a b s) = (fst (flush k s), offs a b (snd (flush k s)))"
  by (simp add: flush_def Let_def offs_upd offs_sel dispatch_offs)

lemma field_effect_offs: "field_effect f v (offs a b s) = offs a b (field_effect f v s)"
  by (simp add: field_effect_def Let_def offs_upd offs_sel)

lemma field_effect_state_upd:
  "field_effect f v (s\<lparr>state := x\<rparr>) = (field_effect f v s)\<lparr>state := x\<rparr>"
  by (simp add: field_effect_def Let_def)

lemma field_effect_state: "state (field_effect f v s) = state s"
  by (simp add: field_effect_def Let_def)

lemma end_of_line_offs:
  "end_of_line k L t (offs a b s) =
     (fst (end_of_line k L t s), offs a b (snd (end_of_line k L t s)))"
  by (simp add: end_of_line_def flush_offs field_effect_offs offs_upd split: prod.splits)


subsection \<open>The loop inside a line\<close>

lemma scan_step:
  "p < length chunk \<Longrightarrow> step k chunk p s = (r, s') \<Longrightarrow>
   scan k chunk p s = (if r then s' else scan k chunk (Suc p) s')"
  by (subst scan.simps) simp

lemma scan_end: "length chunk \<le> p \<Longrightarrow> scan k chunk p s = s"
  by (subst scan.simps) simp

lemma field_char_state: "state s \<noteq> AFTER_CR \<Longrightarrow> state (field_char c p s) \<noteq> AFTER_CR"
  by (auto simp: field_char_def Let_def)

lemma step_char:
  assumes "\<not> is_terminator (chunk ! p)" "state s \<noteq> AFTER_CR"
  shows "step k chunk p s = (False, field_char (chunk ! p) p s)"
  using assms by (simp add: step_def Let_def is_terminator_def)

lemma step_after_cr:
  assumes "state s = AFTER_CR" "chunk ! p \<noteq> LF"
  shows "step k chunk p s = step k chunk p (s\<lparr>state := FIELD_START\<rparr>)"
  using assms by (simp add: step_def Let_def)

lemma step_swallow:
  assumes "state s = AFTER_CR" "chunk ! p = LF"
  shows "step k chunk p s = (False, s\<lparr>state := FIELD_START\<rparr>)"
  using assms by (simp add: step_def Let_def)

lemma step_blank:
  assumes "is_terminator (chunk ! p)" "state s = FIELD_START"
  shows "step k chunk p s = end_of_line k [] (chunk ! p) s"
proof -
  have "chunk ! p = CR \<or> chunk ! p = LF" using assms by (auto simp: is_terminator_def)
  then show ?thesis using assms(2)
    by (auto simp add: step_def end_of_line_def Let_def split: prod.splits)
qed

lemma field_line_state: "state (field_line chunk p s) = state s"
  by (simp add: field_line_def Let_def field_effect_state)

lemma step_field:
  assumes "is_terminator (chunk ! p)" "state s \<noteq> FIELD_START" "state s \<noteq> AFTER_CR"
  shows "step k chunk p s =
           (False, (field_line chunk p s)\<lparr>state := (if chunk ! p = CR then AFTER_CR else FIELD_START)\<rparr>)"
proof -
  have "chunk ! p = CR \<or> chunk ! p = LF" using assms by (auto simp: is_terminator_def)
  then show ?thesis using assms(2,3)
    by (auto simp add: step_def Let_def field_line_state split: prod.splits)
qed

lemma scan_chars:
  assumes "\<forall>c \<in> set L. \<not> is_terminator c" "state s \<noteq> AFTER_CR"
  shows "scan k (pre @ L @ post) (length pre) s =
         scan k (pre @ L @ post) (length pre + length L) (chars (length pre) L s)"
  using assms
proof (induction L arbitrary: pre s)
  case Nil
  then show ?case by simp
next
  case (Cons c cs)
  let ?chunk = "pre @ (c # cs) @ post"
  have st: "step k ?chunk (length pre) s = (False, field_char c (length pre) s)"
    using Cons.prems step_char [of ?chunk "length pre" s k] by simp
  have ns: "state (field_char c (length pre) s) \<noteq> AFTER_CR"
    using field_char_state Cons.prems by simp
  have "scan k ?chunk (length pre) s = scan k ?chunk (Suc (length pre)) (field_char c (length pre) s)"
    using scan_step [OF _ st] by simp
  also have "\<dots> = scan k ((pre @ [c]) @ cs @ post) (length (pre @ [c])) (field_char c (length pre) s)"
    by simp
  also have "\<dots> = scan k ((pre @ [c]) @ cs @ post) (length (pre @ [c]) + length cs)
                      (chars (length (pre @ [c])) cs (field_char c (length pre) s))"
    using Cons.prems ns by (intro Cons.IH) auto
  finally show ?case by simp
qed

lemma chars_VALUE: "state s = VALUE \<Longrightarrow> chars p L s = s"
  by (induction L arbitrary: p) (auto simp: field_char_def)

lemma chars_VALUE_START:
  "state s = VALUE_START \<Longrightarrow> chars p L s = (if L = [] then s else s\<lparr>state := VALUE\<rparr>)"
  by (cases L) (auto simp: field_char_def chars_VALUE)

lemma chars_FIELD:
  "state s = FIELD \<Longrightarrow>
   chars p L s =
     (if CHR '':'' \<in> set L
      then s\<lparr>valueStart := int (p + length (line_field L)) + 1,
             state := (if dropWhile (\<lambda>c. c \<noteq> CHR '':'') L = '':'' then VALUE_START else VALUE)\<rparr>
      else s)"
proof (induction L arbitrary: p s)
  case Nil
  then show ?case by simp
next
  case (Cons c cs)
  show ?case
  proof (cases "c = CHR '':''")
    case True
    then show ?thesis using Cons.prems
      by (simp add: field_char_def chars_VALUE_START line_field_def)
  next
    case False
    then have "field_char c p s = s" using Cons.prems by (simp add: field_char_def)
    then show ?thesis using False Cons.prems Cons.IH [of s "Suc p"]
      by (simp add: line_field_def)
  qed
qed

lemma chars_FIELD_START:
  assumes "state s = FIELD_START" "L \<noteq> []"
  shows "chars p L s =
     (if CHR '':'' \<in> set L
      then s\<lparr>fieldStart := int p, valueStart := int (p + length (line_field L)) + 1,
             state := (if dropWhile (\<lambda>c. c \<noteq> CHR '':'') L = '':'' then VALUE_START else VALUE)\<rparr>
      else s\<lparr>fieldStart := int p, state := FIELD\<rparr>)"
proof -
  obtain c cs where L: "L = c # cs" using assms by (cases L) auto
  show ?thesis
  proof (cases "c = CHR '':''")
    case True
    then show ?thesis using assms L
      by (simp add: field_char_def chars_VALUE_START line_field_def)
  next
    case False
    then have "field_char c p s = s\<lparr>fieldStart := int p, state := FIELD\<rparr>"
      using assms by (simp add: field_char_def)
    then show ?thesis using False L chars_FIELD [of "s\<lparr>fieldStart := int p, state := FIELD\<rparr>" "Suc p" cs]
      by (simp add: line_field_def)
  qed
qed


subsection \<open>The terminator of a line\<close>

lemma line_nocolon:
  assumes "CHR '':'' \<notin> set L"
  shows "line_field L = L" "line_value L = []"
proof -
  have a: "\<forall>c \<in> set L. c \<noteq> CHR '':''" using assms by auto
  then have d: "dropWhile (\<lambda>c. c \<noteq> CHR '':'') L = []" by simp
  from a show "line_field L = L" by (simp add: line_field_def)
  show "line_value L = []" unfolding line_value_def d by simp
qed

lemma line_colon:
  assumes "CHR '':'' \<notin> set f"
  shows "line_field (f @ CHR '':'' # r) = f"
    and "line_value (f @ CHR '':'' # r) =
           (case r of [] \<Rightarrow> [] | d # r' \<Rightarrow> if d = CHR '' '' then r' else r)"
    and "dropWhile (\<lambda>c. c \<noteq> CHR '':'') (f @ CHR '':'' # r) = CHR '':'' # r"
proof -
  have f: "\<forall>c \<in> set f. c \<noteq> CHR '':''" using assms by auto
  then show "line_field (f @ CHR '':'' # r) = f"
    by (simp add: line_field_def takeWhile_append2)
  from f show "dropWhile (\<lambda>c. c \<noteq> CHR '':'') (f @ CHR '':'' # r) = CHR '':'' # r"
    by (simp add: dropWhile_append2)
  then show "line_value (f @ CHR '':'' # r) =
           (case r of [] \<Rightarrow> [] | d # r' \<Rightarrow> if d = CHR '' '' then r' else r)"
    by (simp add: line_value_def)
qed

lemma line_split:
  assumes "CHR '':'' \<in> set L"
  obtains f r where "L = f @ CHR '':'' # r" "CHR '':'' \<notin> set f"
  using assms split_list_first by fastforce

lemma field_line_nocolon:
  assumes "CHR '':'' \<notin> set L"
  shows "field_line (pre @ L @ t # post) (length pre + length L)
           (s\<lparr>fieldStart := int (length pre), state := FIELD\<rparr>) =
         field_effect (line_field L) (line_value L)
           ((offs (int (length pre)) (int (length pre + length L) + 1) s)\<lparr>state := FIELD\<rparr>)"
proof -
  have fld: "slice (pre @ L @ t # post) (int (length pre)) (int (length pre) + int (length L)) = L"
    by (simp add: slice_nonneg nat_add_distrib)
  have val: "slice (pre @ L @ t # post) (int (length pre) + int (length L) + 1)
                   (int (length pre) + int (length L)) = []"
    by (simp add: slice_nonneg nat_add_distrib)
  have rec: "s\<lparr>fieldStart := int (length pre), state := FIELD,
                    valueStart := int (length pre) + int (length L) + 1\<rparr> =
      (offs (int (length pre)) (int (length pre + length L) + 1) s)\<lparr>state := FIELD\<rparr>"
    by (simp add: offs_def)
  have "field_line (pre @ L @ t # post) (length pre + length L)
           (s\<lparr>fieldStart := int (length pre), state := FIELD\<rparr>) =
        field_effect (line_field L) (line_value L)
          (s\<lparr>fieldStart := int (length pre), state := FIELD,
                    valueStart := int (length pre) + int (length L) + 1\<rparr>)"
    using fld val by (simp add: field_line_def Let_def line_nocolon [OF assms])
  then show ?thesis by (simp only: rec)
qed

lemma field_line_colon:
  assumes "CHR '':'' \<notin> set f" "st \<noteq> FIELD"
  shows "field_line (pre @ (f @ CHR '':'' # r) @ t # post) (length pre + length (f @ CHR '':'' # r))
           (s\<lparr>fieldStart := int (length pre),
               valueStart := int (length pre + length f) + 1, state := st\<rparr>) =
         field_effect (line_field (f @ CHR '':'' # r)) (line_value (f @ CHR '':'' # r))
           ((offs (int (length pre)) (int (length pre + length f) + 1) s)\<lparr>state := st\<rparr>)"
proof -
  let ?chunk = "pre @ (f @ CHR '':'' # r) @ t # post"
  let ?sc = "s\<lparr>fieldStart := int (length pre),
               valueStart := int (length pre + length f) + 1, state := st\<rparr>"
  have fld: "slice ?chunk (int (length pre)) (int (length pre) + int (length f)) = f"
    by (simp add: slice_nonneg nat_add_distrib)
  have rec: "?sc = (offs (int (length pre)) (int (length pre + length f) + 1) s)\<lparr>state := st\<rparr>"
    by (simp add: offs_def)
  have "field_line ?chunk (length pre + length (f @ CHR '':'' # r)) ?sc =
         field_effect (line_field (f @ CHR '':'' # r)) (line_value (f @ CHR '':'' # r)) ?sc"
  proof (cases r)
    case Nil
    then show ?thesis using assms
      by (simp add: field_line_def Let_def line_colon slice_nonneg nat_add_distrib)
  next
    case (Cons d r')
    then show ?thesis using assms
      by (simp add: field_line_def Let_def line_colon slice_nonneg nat_add_distrib
            charCodeAt_def nth_append)
  qed
  then show ?thesis by (simp only: rec)
qed


lemma end_of_line_field:
  "L \<noteq> [] \<Longrightarrow>
   end_of_line k L t s =
     (False, (field_effect (line_field L) (line_value L) s)
               \<lparr>state := (if t = CR then AFTER_CR else FIELD_START)\<rparr>)"
  by (simp add: end_of_line_def)

lemma offs_state_twice: "((offs a b x)\<lparr>state := u\<rparr>)\<lparr>state := v\<rparr> = offs a b (x\<lparr>state := v\<rparr>)"
  by (simp add: offs_def)

lemma step_line_end:
  assumes nt: "\<forall>c \<in> set L. \<not> is_terminator c" and t: "is_terminator t"
    and st: "state s = FIELD_START"
  shows "\<exists>a b. step k (pre @ L @ t # post) (length pre + length L) (chars (length pre) L s) =
           (fst (end_of_line k L t s), offs a b (snd (end_of_line k L t s)))"
proof -
  let ?chunk = "pre @ L @ t # post"
  let ?q = "length pre + length L"
  let ?T = "if t = CR then AFTER_CR else FIELD_START"
  have nth: "?chunk ! ?q = t" by (simp add: nth_append)
  show ?thesis
  proof (cases "L = []")
    case True
    have "step k ?chunk ?q (chars (length pre) L s) = end_of_line k [] t s"
      using step_blank [of ?chunk ?q s k] t st True nth by simp
    then have "step k ?chunk ?q (chars (length pre) L s) =
        (fst (end_of_line k L t s),
         offs (fieldStart (snd (end_of_line k L t s))) (valueStart (snd (end_of_line k L t s)))
           (snd (end_of_line k L t s)))"
      using True by (simp add: offs_self)
    then show ?thesis by blast
  next
    case False
    let ?fe = "field_effect (line_field L) (line_value L)"
    have "\<exists>a b u. u \<noteq> FIELD_START \<and> u \<noteq> AFTER_CR \<and>
            state (chars (length pre) L s) = u \<and>
            field_line ?chunk ?q (chars (length pre) L s) = ?fe ((offs a b s)\<lparr>state := u\<rparr>)"
    proof (cases "CHR '':'' \<in> set L")
      case nocolon: False
      have c: "chars (length pre) L s = s\<lparr>fieldStart := int (length pre), state := FIELD\<rparr>"
        using chars_FIELD_START [OF st False] nocolon by simp
      show ?thesis using field_line_nocolon [OF nocolon, of pre t post s] c by auto
    next
      case colon: True
      then obtain f r where L: "L = f @ CHR '':'' # r" and f: "CHR '':'' \<notin> set f"
        by (rule line_split)
      let ?u = "if dropWhile (\<lambda>c. c \<noteq> CHR '':'') L = '':'' then VALUE_START else VALUE"
      have c: "chars (length pre) L s =
              s\<lparr>fieldStart := int (length pre), valueStart := int (length pre + length f) + 1,
                 state := ?u\<rparr>"
        using chars_FIELD_START [OF st False, of "length pre"] colon line_colon(1) [OF f, of r] L
        by simp
      have u: "?u \<noteq> FIELD" "?u \<noteq> FIELD_START" "?u \<noteq> AFTER_CR" by auto
      have "field_line ?chunk ?q (chars (length pre) L s) =
            ?fe ((offs (int (length pre)) (int (length pre + length f) + 1) s)\<lparr>state := ?u\<rparr>)"
        unfolding c using field_line_colon [OF f u(1), of pre r t post s] L by simp
      moreover have "state (chars (length pre) L s) = ?u"
        unfolding c by simp
      ultimately show ?thesis using u by blast
    qed
    then obtain a b u where u: "u \<noteq> FIELD_START" "u \<noteq> AFTER_CR"
      and c: "state (chars (length pre) L s) = u"
      and fl: "field_line ?chunk ?q (chars (length pre) L s) = ?fe ((offs a b s)\<lparr>state := u\<rparr>)"
      by blast
    have "step k ?chunk ?q (chars (length pre) L s) =
          (False, (field_line ?chunk ?q (chars (length pre) L s))\<lparr>state := ?T\<rparr>)"
      using step_field [of ?chunk ?q "chars (length pre) L s" k] t u c nth by simp
    also have "(field_line ?chunk ?q (chars (length pre) L s))\<lparr>state := ?T\<rparr> =
               offs a b ((?fe s)\<lparr>state := ?T\<rparr>)"
      unfolding fl field_effect_state_upd field_effect_offs offs_state_twice ..
    finally show ?thesis using end_of_line_field [OF False, of k t s] by auto
  qed
qed

subsection \<open>The loop and the lines\<close>

lemma same_but_offsets_refl: "same_but_offsets s s"
  by (simp add: same_but_offsets_def)

lemma same_but_offsets_offs: "same_but_offsets (offs a b s) s"
  by (simp add: same_but_offsets_def offs_offs)

lemma same_but_offsets_trans:
  "same_but_offsets a b \<Longrightarrow> same_but_offsets b c \<Longrightarrow> same_but_offsets a c"
  by (simp add: same_but_offsets_def)

lemma same_but_offsets_sym: "same_but_offsets a b \<Longrightarrow> same_but_offsets b a"
  by (simp add: same_but_offsets_def)

lemma same_but_offsets_state: "same_but_offsets c s \<Longrightarrow> state c = state s"
  unfolding same_but_offsets_def using offs_sel(10) by metis

lemma same_but_offsets_state_upd:
  "same_but_offsets c s \<Longrightarrow> same_but_offsets (c\<lparr>state := x\<rparr>) (s\<lparr>state := x\<rparr>)"
  unfolding same_but_offsets_def using offs_upd(10) by metis

lemma same_but_offsets_end_of_line:
  assumes "same_but_offsets c s"
  shows "fst (end_of_line k L t c) = fst (end_of_line k L t s)"
    and "same_but_offsets (snd (end_of_line k L t c)) (snd (end_of_line k L t s))"
proof -
  have "end_of_line k L t (offs 0 0 c) = end_of_line k L t (offs 0 0 s)"
    using assms by (simp add: same_but_offsets_def)
  then show "fst (end_of_line k L t c) = fst (end_of_line k L t s)"
    and "same_but_offsets (snd (end_of_line k L t c)) (snd (end_of_line k L t s))"
    by (simp_all add: end_of_line_offs same_but_offsets_def)
qed

lemma end_of_line_state:
  "\<not> fst (end_of_line k L t s) \<Longrightarrow>
   state (snd (end_of_line k L t s)) = (if t = CR then AFTER_CR else FIELD_START)"
  by (simp add: end_of_line_def split: prod.splits if_splits)

lemma run_lines_Nil: "run_lines k [] s = s"
  by (subst run_lines.simps) simp

lemma run_lines_swallow:
  "state s = AFTER_CR \<Longrightarrow> run_lines k (LF # cs) s = run_lines k cs (s\<lparr>state := FIELD_START\<rparr>)"
  by (subst run_lines.simps) simp

lemma run_lines_line:
  assumes "\<forall>c \<in> set L. \<not> is_terminator c" "is_terminator t"
    and "\<not> (state s = AFTER_CR \<and> L = [] \<and> t = LF)"
  shows "run_lines k (L @ t # rest) s =
     (if fst (end_of_line k L t (s\<lparr>state := FIELD_START\<rparr>))
      then snd (end_of_line k L t (s\<lparr>state := FIELD_START\<rparr>))
      else run_lines k rest (snd (end_of_line k L t (s\<lparr>state := FIELD_START\<rparr>))))"
proof -
  have tw: "takeWhile (\<lambda>c. \<not> is_terminator c) (L @ t # rest) = L"
    using assms by (simp add: takeWhile_append2)
  have dw: "dropWhile (\<lambda>c. \<not> is_terminator c) (L @ t # rest) = t # rest"
    using assms by (simp add: dropWhile_append2)
  have hd: "\<not> (state s = AFTER_CR \<and> hd (L @ t # rest) = LF)"
    using assms by (cases L) (auto simp: is_terminator_def)
  obtain c cs where e: "L @ t # rest = c # cs" by (cases L) auto
  with hd have hd': "\<not> (state s = AFTER_CR \<and> c = LF)" by simp
  show ?thesis
    apply (subst run_lines.simps)
    apply (simp only: tw dw)
    using hd' e by (auto split: prod.splits)
qed


lemma scan_after_cr:
  assumes "state c = AFTER_CR" "p < length chunk" "chunk ! p \<noteq> LF"
  shows "scan k chunk p c = scan k chunk p (c\<lparr>state := FIELD_START\<rparr>)"
  using assms
  by (subst scan.simps, subst (2) scan.simps) (simp add: step_after_cr)

lemma terminated_split:
  assumes "inp \<noteq> []" "is_terminator (last inp)"
  obtains L t rest where "inp = L @ t # rest" "\<forall>c \<in> set L. \<not> is_terminator c" "is_terminator t"
proof -
  let ?L = "takeWhile (\<lambda>c. \<not> is_terminator c) inp"
  let ?R = "dropWhile (\<lambda>c. \<not> is_terminator c) inp"
  have "last inp \<in> set inp" using assms by simp
  then have "?R \<noteq> []" using assms by (auto simp: dropWhile_eq_Nil_conv)
  then obtain t rest where R: "?R = t # rest" by (cases ?R) auto
  then have "is_terminator t" using hd_dropWhile [of "\<lambda>c. \<not> is_terminator c" inp] by auto
  moreover have "inp = ?L @ t # rest" using R takeWhile_dropWhile_id [of "\<lambda>c. \<not> is_terminator c" inp] by simp
  moreover have "\<forall>c \<in> set ?L. \<not> is_terminator c" by (auto dest: set_takeWhileD)
  ultimately show ?thesis using that by blast
qed

lemma scan_run_lines:
  assumes "same_but_offsets c s" "state s = FIELD_START \<or> state s = AFTER_CR"
    and "inp = [] \<or> is_terminator (last inp)"
  shows "same_but_offsets (scan k (pre @ inp) (length pre) c) (run_lines k inp s)"
  using assms
proof (induction "length inp" arbitrary: inp pre c s rule: less_induct)
  case less
  note sb = less.prems(1) and st = less.prems(2) and tm = less.prems(3)
  have stc: "state c = state s" using sb by (rule same_but_offsets_state)
  show ?case
  proof (cases "inp = []")
    case True
    then show ?thesis using sb by (simp add: scan_end run_lines_Nil)
  next
    case ne: False
    show ?thesis
    proof (cases "state s = AFTER_CR \<and> hd inp = LF")
      case True
      then obtain cs where inp: "inp = LF # cs" using ne by (cases inp) auto
      have step: "step k (pre @ inp) (length pre) c = (False, c\<lparr>state := FIELD_START\<rparr>)"
        using True stc inp by (simp add: step_swallow)
      have "scan k (pre @ inp) (length pre) c =
            scan k ((pre @ [LF]) @ cs) (length (pre @ [LF])) (c\<lparr>state := FIELD_START\<rparr>)"
        using scan_step [OF _ step] inp by simp
      moreover have "run_lines k inp s = run_lines k cs (s\<lparr>state := FIELD_START\<rparr>)"
        using True inp by (simp add: run_lines_swallow)
      moreover have "same_but_offsets (scan k ((pre @ [LF]) @ cs) (length (pre @ [LF])) (c\<lparr>state := FIELD_START\<rparr>))
                       (run_lines k cs (s\<lparr>state := FIELD_START\<rparr>))"
      proof (rule less.hyps)
        show "length cs < length inp" using inp by simp
        show "same_but_offsets (c\<lparr>state := FIELD_START\<rparr>) (s\<lparr>state := FIELD_START\<rparr>)"
          using sb by (rule same_but_offsets_state_upd)
        show "state (s\<lparr>state := FIELD_START\<rparr>) = FIELD_START \<or> state (s\<lparr>state := FIELD_START\<rparr>) = AFTER_CR"
          by simp
        show "cs = [] \<or> is_terminator (last cs)" using tm inp by (cases cs) auto
      qed
      ultimately show ?thesis by simp
    next
      case nsw: False
      from ne tm obtain L t rest where inp: "inp = L @ t # rest"
        and nt: "\<forall>c \<in> set L. \<not> is_terminator c" and t: "is_terminator t"
        using terminated_split by blast
      let ?chunk = "pre @ L @ t # rest"
      let ?cn = "c\<lparr>state := FIELD_START\<rparr>" and ?sn = "s\<lparr>state := FIELD_START\<rparr>"
      have sbn: "same_but_offsets ?cn ?sn" using sb by (rule same_but_offsets_state_upd)
      have first: "(pre @ inp) ! length pre = hd inp" using ne by (cases inp) (auto simp: nth_append)
      have hdinp: "state s = AFTER_CR \<Longrightarrow> \<not> (L = [] \<and> t = LF)"
        using nsw inp by (cases L) auto
      have "scan k (pre @ inp) (length pre) c = scan k (pre @ inp) (length pre) ?cn"
      proof (cases "state s = AFTER_CR")
        case True
        then show ?thesis using scan_after_cr [of c "length pre" "pre @ inp" k] stc first nsw ne
          by simp
      next
        case False
        then have "state c = FIELD_START" using st stc by simp
        then have "?cn = c" by simp
        then show ?thesis by simp
      qed
      also have "\<dots> = scan k ?chunk (length pre + length L) (chars (length pre) L ?cn)"
        unfolding inp using scan_chars [OF nt, of ?cn k pre "t # rest"] by simp
      finally have sc1: "scan k (pre @ inp) (length pre) c =
                         scan k ?chunk (length pre + length L) (chars (length pre) L ?cn)" .
      obtain a b where step: "step k ?chunk (length pre + length L) (chars (length pre) L ?cn) =
           (fst (end_of_line k L t ?cn), offs a b (snd (end_of_line k L t ?cn)))"
        using step_line_end [OF nt t, of ?cn k pre rest] by auto
      let ?r = "fst (end_of_line k L t ?sn)" and ?s' = "snd (end_of_line k L t ?sn)"
      let ?c' = "offs a b (snd (end_of_line k L t ?cn))"
      have r: "fst (end_of_line k L t ?cn) = ?r"
        using same_but_offsets_end_of_line(1) [OF sbn] .
      have sb': "same_but_offsets ?c' ?s'"
        using same_but_offsets_trans [OF same_but_offsets_offs same_but_offsets_end_of_line(2) [OF sbn]] .
      have sc2: "scan k (pre @ inp) (length pre) c =
                 (if ?r then ?c' else scan k ?chunk (Suc (length pre + length L)) ?c')"
        unfolding sc1 using scan_step [OF _ step] r by simp
      have rl: "run_lines k inp s = (if ?r then ?s' else run_lines k rest ?s')"
        unfolding inp using run_lines_line [OF nt t, of s k rest] hdinp by auto
      show ?thesis
      proof (cases ?r)
        case True
        then show ?thesis using sc2 rl sb' by simp
      next
        case False
        have "same_but_offsets (scan k ((pre @ L @ [t]) @ rest) (length (pre @ L @ [t])) ?c')
                (run_lines k rest ?s')"
        proof (rule less.hyps)
          show "length rest < length inp" using inp by simp
          show "same_but_offsets ?c' ?s'" by (rule sb')
          show "state ?s' = FIELD_START \<or> state ?s' = AFTER_CR"
            using end_of_line_state [OF False] by simp
          show "rest = [] \<or> is_terminator (last rest)" using tm inp by (cases rest) auto
        qed
        then show ?thesis using sc2 rl False by simp
      qed
    qed
  qed
qed

subsection \<open>The split of a chunk\<close>

lemma lastTerminator_snoc:
  "lastTerminator (xs @ [x]) = (if is_terminator x then int (length xs) else lastTerminator xs)"
proof -
  have "foldl (\<lambda>n i. if (xs @ [x]) ! i = LF \<or> (xs @ [x]) ! i = CR then int i else n) (- 1) [0 ..< length xs] =
        foldl (\<lambda>n i. if xs ! i = LF \<or> xs ! i = CR then int i else n) (- 1) [0 ..< length xs]"
    by (rule foldl_cong) (auto simp: nth_append)
  then show ?thesis by (simp add: lastTerminator_def is_terminator_def)
qed

lemma complete_pending: "complete_part xs @ pending_part xs = xs"
proof -
  have "rev (takeWhile (\<lambda>c. \<not> is_terminator c) (rev xs) @ dropWhile (\<lambda>c. \<not> is_terminator c) (rev xs)) = xs"
    by simp
  then show ?thesis unfolding complete_part_def pending_part_def rev_append .
qed

lemma complete_part_snoc:
  "complete_part (xs @ [x]) = (if is_terminator x then xs @ [x] else complete_part xs)"
  by (simp add: complete_part_def)

lemma pending_part_snoc:
  "pending_part (xs @ [x]) = (if is_terminator x then [] else pending_part xs @ [x])"
  by (simp add: pending_part_def)

lemma lastTerminator_length: "lastTerminator xs = int (length (complete_part xs)) - 1"
proof (induction xs rule: rev_induct)
  case Nil
  show ?case by (simp add: lastTerminator_def complete_part_def)
next
  case (snoc x xs)
  then show ?case by (simp add: lastTerminator_snoc complete_part_snoc)
qed

lemma slice_lastTerminator:
  "slice xs 0 (lastTerminator xs + 1) = complete_part xs"
  "slice_from xs (lastTerminator xs + 1) = pending_part xs"
proof -
  have x: "xs = complete_part xs @ pending_part xs" by (simp add: complete_pending)
  have "take (length (complete_part xs)) xs = complete_part xs"
    by (subst (2) x) simp
  then show "slice xs 0 (lastTerminator xs + 1) = complete_part xs"
    using slice_nat [of xs 0 "length (complete_part xs)"] by (simp add: lastTerminator_length)
  have "drop (length (complete_part xs)) xs = pending_part xs"
    by (subst (2) x) simp
  then show "slice_from xs (lastTerminator xs + 1) = pending_part xs"
    using slice_from_nat [of xs "length (complete_part xs)"] by (simp add: lastTerminator_length)
qed

lemma lastTerminator_none: "lastTerminator xs = - 1 \<longleftrightarrow> complete_part xs = []"
  by (simp add: lastTerminator_length)

lemma complete_part_last: "complete_part xs = [] \<or> is_terminator (last (complete_part xs))"
  by (induction xs rule: rev_induct) (auto simp: complete_part_snoc complete_part_def)

lemma pending_part_no_terminator: "\<forall>c \<in> set (pending_part xs). \<not> is_terminator c"
  by (auto simp: pending_part_def dest: set_takeWhileD)

lemma complete_part_Nil_iff: "complete_part xs = [] \<longleftrightarrow> (\<forall>c \<in> set xs. \<not> is_terminator c)"
  by (auto simp: complete_part_def dropWhile_eq_Nil_conv)

lemma complete_part_append:
  "complete_part (xs @ ys) = (if complete_part ys = [] then complete_part xs else xs @ complete_part ys)"
  by (induction ys rule: rev_induct)
     (auto simp: complete_part_snoc complete_part_def simp flip: append_assoc)

lemma pending_part_append:
  "pending_part (xs @ ys) = (if complete_part ys = [] then pending_part xs @ ys else pending_part ys)"
proof (induction ys rule: rev_induct)
  case Nil
  show ?case by (simp add: complete_part_def)
next
  case (snoc y ys)
  show ?case using snoc
    by (auto simp: complete_part_snoc pending_part_snoc complete_part_Nil_iff simp flip: append_assoc)
qed

lemma chunk_of_append:
  "chunk_of tb (c1 @ c2) = chunk_of tb c1 @ chunk_of (buffer_of tb c1) c2"
  using complete_pending [of c1]
  by (auto simp: chunk_of_def buffer_of_def complete_part_append)

lemma buffer_of_append:
  "buffer_of tb (c1 @ c2) = buffer_of (buffer_of tb c1) c2"
  by (auto simp: buffer_of_def complete_part_append pending_part_append)

lemma chunk_of_last: "chunk_of tb c = [] \<or> is_terminator (last (chunk_of tb c))"
  using complete_part_last [of c] by (auto simp: chunk_of_def)

subsection \<open>Variables the parser leaves alone\<close>

lemma activity_sel:
  "effects (activity a b n s) = effects s"
  "lastEventId (activity a b n s) = lastEventId s"
  "eventTypeBuffer (activity a b n s) = eventTypeBuffer s"
  "dataBuffer (activity a b n s) = dataBuffer s"
  "lastEventIdBuffer (activity a b n s) = lastEventIdBuffer s"
  "initialRetry (activity a b n s) = initialRetry s"
  "retry (activity a b n s) = retry s"
  "heartbeatTimeout (activity a b n s) = heartbeatTimeout s"
  "timeout (activity a b n s) = timeout s"
  "state (activity a b n s) = state s"
  "currentState (activity a b n s) = currentState s"
  "abortController (activity a b n s) = abortController s"
  "textBuffer (activity a b n s) = a"
  "wasActivity (activity a b n s) = b"
  "textLength (activity a b n s) = n"
  "readyState (activity a b n s) = readyState s"
  "url (activity a b n s) = url s"
  "fieldStart (activity a b n s) = fieldStart s"
  "valueStart (activity a b n s) = valueStart s"
  by (simp_all add: activity_def)

lemma activity_upd:
  "(activity a b n s)\<lparr>effects := x\<rparr> = activity a b n (s\<lparr>effects := x\<rparr>)"
  "(activity a b n s)\<lparr>lastEventId := y\<rparr> = activity a b n (s\<lparr>lastEventId := y\<rparr>)"
  "(activity a b n s)\<lparr>eventTypeBuffer := y\<rparr> = activity a b n (s\<lparr>eventTypeBuffer := y\<rparr>)"
  "(activity a b n s)\<lparr>dataBuffer := y\<rparr> = activity a b n (s\<lparr>dataBuffer := y\<rparr>)"
  "(activity a b n s)\<lparr>lastEventIdBuffer := y\<rparr> = activity a b n (s\<lparr>lastEventIdBuffer := y\<rparr>)"
  "(activity a b n s)\<lparr>initialRetry := i\<rparr> = activity a b n (s\<lparr>initialRetry := i\<rparr>)"
  "(activity a b n s)\<lparr>retry := i\<rparr> = activity a b n (s\<lparr>retry := i\<rparr>)"
  "(activity a b n s)\<lparr>heartbeatTimeout := i\<rparr> = activity a b n (s\<lparr>heartbeatTimeout := i\<rparr>)"
  "(activity a b n s)\<lparr>timeout := t\<rparr> = activity a b n (s\<lparr>timeout := t\<rparr>)"
  "(activity a b n s)\<lparr>state := l\<rparr> = activity a b n (s\<lparr>state := l\<rparr>)"
  "(activity a b n s)\<lparr>currentState := r\<rparr> = activity a b n (s\<lparr>currentState := r\<rparr>)"
  "(activity a b n s)\<lparr>readyState := r\<rparr> = activity a b n (s\<lparr>readyState := r\<rparr>)"
  "(activity a b n s)\<lparr>abortController := f\<rparr> = activity a b n (s\<lparr>abortController := f\<rparr>)"
  by (simp_all add: activity_def)

lemma activity_activity: "activity a b n (activity a' b' n' s) = activity a b n s"
  by (simp add: activity_def)

lemma activity_offs: "activity a b n (offs x y s) = offs x y (activity a b n s)"
  by (simp add: activity_def offs_def)

lemma close_activity: "close (activity a b n s) = activity a b n (close s)"
  by (simp add: close_def Let_def activity_sel activity_upd)

lemma dispatchEvent_activity:
  "dispatchEvent k ev (activity a b n s) = activity a b n (dispatchEvent k ev s)"
  by (simp add: dispatchEvent_def Let_def activity_upd activity_sel close_activity)

lemma fire_activity: "fire k sl ev (activity a b n s) = activity a b n (fire k sl ev s)"
  by (simp add: fire_def Let_def activity_upd activity_sel close_activity split: option.splits)

lemma dispatch_activity: "dispatch k ev (activity a b n s) = activity a b n (dispatch k ev s)"
  by (simp add: dispatch_def Let_def dispatchEvent_activity fire_activity split: option.splits)

lemma flush_activity:
  "flush k (activity a b n s) = (fst (flush k s), activity a b n (snd (flush k s)))"
  by (simp add: flush_def Let_def activity_upd activity_sel dispatch_activity)

lemma field_effect_activity:
  "field_effect f v (activity a b n s) = activity a b n (field_effect f v s)"
  by (simp add: field_effect_def Let_def activity_upd activity_sel)

lemma end_of_line_activity:
  "end_of_line k L t (activity a b n s) =
     (fst (end_of_line k L t s), activity a b n (snd (end_of_line k L t s)))"
  by (simp add: end_of_line_def flush_activity field_effect_activity activity_upd split: prod.splits)

lemma run_lines_other:
  assumes "\<not> (state s = AFTER_CR \<and> c = LF)"
  shows "run_lines k (c # cs) s =
     (case dropWhile (\<lambda>c. \<not> is_terminator c) (c # cs) of
        [] \<Rightarrow> s
      | t # rest \<Rightarrow>
          if fst (end_of_line k (takeWhile (\<lambda>c. \<not> is_terminator c) (c # cs)) t (s\<lparr>state := FIELD_START\<rparr>))
          then snd (end_of_line k (takeWhile (\<lambda>c. \<not> is_terminator c) (c # cs)) t (s\<lparr>state := FIELD_START\<rparr>))
          else run_lines k rest
                 (snd (end_of_line k (takeWhile (\<lambda>c. \<not> is_terminator c) (c # cs)) t (s\<lparr>state := FIELD_START\<rparr>))))"
proof -
  have f: "(state s = AFTER_CR \<and> c = LF) = False" using assms by blast
  show ?thesis
    by (subst run_lines.simps) (simp only: list.case f if_False case_prod_beta Let_def)
qed

lemma run_lines_frame:
  assumes eol: "\<And>k L t s. end_of_line k L t (F s) = (fst (end_of_line k L t s), F (snd (end_of_line k L t s)))"
    and st: "\<And>s. state (F s) = state s"
    and upd: "\<And>s x. (F s)\<lparr>state := x\<rparr> = F (s\<lparr>state := x\<rparr>)"
  shows "run_lines k inp (F s) = F (run_lines k inp s)"
proof (induction k inp s rule: run_lines.induct)
  case (1 k inp s)
  show ?case
  proof (cases inp)
    case Nil
    then show ?thesis by (simp add: run_lines_Nil)
  next
    case (Cons c cs)
    show ?thesis
    proof (cases "state s = AFTER_CR \<and> c = LF")
      case True
      then show ?thesis using Cons 1(1) [OF Cons True]
        by (simp add: run_lines_swallow st upd)
    next
      case False
      then have F': "\<not> (state (F s) = AFTER_CR \<and> c = LF)" by (simp add: st)
      show ?thesis
      proof (cases "dropWhile (\<lambda>c. \<not> is_terminator c) inp")
        case Nil
        then show ?thesis using Cons run_lines_other [OF False, of k cs] run_lines_other [OF F', of k cs]
          by simp
      next
        case dw: (Cons t rest)
        let ?e = "end_of_line k (takeWhile (\<lambda>c. \<not> is_terminator c) inp) t (s\<lparr>state := FIELD_START\<rparr>)"
        have pr: "(fst ?e, snd ?e) = ?e" by simp
        have IH: "\<not> fst ?e \<Longrightarrow> run_lines k rest (F (snd ?e)) = F (run_lines k rest (snd ?e))"
          using 1(2) [OF Cons False dw refl pr] by blast
        have "run_lines k inp (F s) = (if fst ?e then F (snd ?e) else run_lines k rest (F (snd ?e)))"
          using Cons dw run_lines_other [OF F', of k cs] by (simp add: upd eol)
        moreover have "run_lines k inp s = (if fst ?e then snd ?e else run_lines k rest (snd ?e))"
          using Cons dw run_lines_other [OF False, of k cs] by simp
        ultimately show ?thesis using IH by simp
      qed
    qed
  qed
qed

lemma run_lines_activity:
  "run_lines k inp (activity a b n s) = activity a b n (run_lines k inp s)"
  by (rule run_lines_frame) (simp_all add: end_of_line_activity activity_sel activity_upd)

lemma run_lines_offs:
  "run_lines k inp (offs a b s) = offs a b (run_lines k inp s)"
  by (rule run_lines_frame) (simp_all add: end_of_line_offs offs_sel offs_upd)

lemma run_lines_core: "run_lines k inp (core s) = core (run_lines k inp s)"
  by (simp add: core_def run_lines_offs run_lines_activity)

subsection \<open>What \<open>close\<close>, \<open>dispatch\<close>, \<open>flush\<close> and a field change\<close>

lemma close_sel:
  "url (close s) = url s"
  "initialRetry (close s) = initialRetry s"
  "heartbeatTimeout (close s) = heartbeatTimeout s"
  "lastEventId (close s) = lastEventId s"
  "retry (close s) = retry s"
  "wasActivity (close s) = wasActivity s"
  "textLength (close s) = textLength s"
  "dataBuffer (close s) = dataBuffer s"
  "lastEventIdBuffer (close s) = lastEventIdBuffer s"
  "eventTypeBuffer (close s) = eventTypeBuffer s"
  "textBuffer (close s) = textBuffer s"
  "state (close s) = state s"
  "fieldStart (close s) = fieldStart s"
  "valueStart (close s) = valueStart s"
  by (simp_all add: close_def Let_def)

lemma dispatchEvent_sel:
  "url (dispatchEvent k ev s) = url s"
  "initialRetry (dispatchEvent k ev s) = initialRetry s"
  "heartbeatTimeout (dispatchEvent k ev s) = heartbeatTimeout s"
  "lastEventId (dispatchEvent k ev s) = lastEventId s"
  "retry (dispatchEvent k ev s) = retry s"
  "wasActivity (dispatchEvent k ev s) = wasActivity s"
  "textLength (dispatchEvent k ev s) = textLength s"
  "dataBuffer (dispatchEvent k ev s) = dataBuffer s"
  "lastEventIdBuffer (dispatchEvent k ev s) = lastEventIdBuffer s"
  "eventTypeBuffer (dispatchEvent k ev s) = eventTypeBuffer s"
  "textBuffer (dispatchEvent k ev s) = textBuffer s"
  "state (dispatchEvent k ev s) = state s"
  "fieldStart (dispatchEvent k ev s) = fieldStart s"
  "valueStart (dispatchEvent k ev s) = valueStart s"
  by (simp_all add: dispatchEvent_def Let_def close_sel)

lemma fire_sel:
  "url (fire k sl ev s) = url s"
  "initialRetry (fire k sl ev s) = initialRetry s"
  "heartbeatTimeout (fire k sl ev s) = heartbeatTimeout s"
  "lastEventId (fire k sl ev s) = lastEventId s"
  "retry (fire k sl ev s) = retry s"
  "wasActivity (fire k sl ev s) = wasActivity s"
  "textLength (fire k sl ev s) = textLength s"
  "dataBuffer (fire k sl ev s) = dataBuffer s"
  "lastEventIdBuffer (fire k sl ev s) = lastEventIdBuffer s"
  "eventTypeBuffer (fire k sl ev s) = eventTypeBuffer s"
  "textBuffer (fire k sl ev s) = textBuffer s"
  "state (fire k sl ev s) = state s"
  "fieldStart (fire k sl ev s) = fieldStart s"
  "valueStart (fire k sl ev s) = valueStart s"
  by (simp_all add: fire_def Let_def close_sel split: option.splits)

lemma dispatch_sel:
  "url (dispatch k ev s) = url s"
  "initialRetry (dispatch k ev s) = initialRetry s"
  "heartbeatTimeout (dispatch k ev s) = heartbeatTimeout s"
  "lastEventId (dispatch k ev s) = lastEventId s"
  "retry (dispatch k ev s) = retry s"
  "wasActivity (dispatch k ev s) = wasActivity s"
  "textLength (dispatch k ev s) = textLength s"
  "dataBuffer (dispatch k ev s) = dataBuffer s"
  "lastEventIdBuffer (dispatch k ev s) = lastEventIdBuffer s"
  "eventTypeBuffer (dispatch k ev s) = eventTypeBuffer s"
  "textBuffer (dispatch k ev s) = textBuffer s"
  "state (dispatch k ev s) = state s"
  "fieldStart (dispatch k ev s) = fieldStart s"
  "valueStart (dispatch k ev s) = valueStart s"
  by (simp_all add: dispatch_def Let_def dispatchEvent_sel fire_sel split: option.splits)

text \<open>What may follow the entry of an event in the effects while it is delivered.\<close>

lemma close_reaction:
  "\<exists>rest. effects (close s) = effects s @ rest \<and> (\<forall>e \<in> set rest. is_reaction e)"
  by (auto simp add: close_fields)

lemma dispatchEvent_effects:
  "\<exists>rest. effects (dispatchEvent k ev s) = effects s @ Dispatched (currentState s) ev # rest \<and>
          (\<forall>e \<in> set rest. is_reaction e)"
  by (auto simp add: dispatchEvent_def Let_def close_fields)

lemma fire_effects:
  "\<exists>rest. effects (fire k sl ev s) = effects s @ rest \<and> (\<forall>e \<in> set rest. is_reaction e)"
proof (cases "handler k sl (effects s) ev")
  case None
  then show ?thesis by (simp add: fire_def)
next
  case (Some closes)
  let ?s' = "s\<lparr>effects := effects s @ [Fired (currentState s) ev]\<rparr>"
  show ?thesis
  proof (cases closes)
    case True
    obtain r where r: "effects (close ?s') = effects ?s' @ r" "\<forall>e \<in> set r. is_reaction e"
      using close_reaction by blast
    have "effects (fire k sl ev s) = effects s @ (Fired (currentState s) ev # r)"
      using Some True r(1) by (simp add: fire_def Let_def)
    moreover have "\<forall>e \<in> set (Fired (currentState s) ev # r). is_reaction e" using r(2) by simp
    ultimately show ?thesis by blast
  next
    case False
    have "effects (fire k sl ev s) = effects s @ [Fired (currentState s) ev]"
      using Some False by (simp add: fire_def Let_def)
    moreover have "\<forall>e \<in> set [Fired (currentState s) ev]. is_reaction e" by simp
    ultimately show ?thesis by blast
  qed
qed

lemma dispatch_effects:
  "\<exists>rest. effects (dispatch k ev s) = effects s @ Dispatched (currentState s) ev # rest \<and>
          (\<forall>e \<in> set rest. is_reaction e)"
proof -
  obtain r1 where r1: "effects (dispatchEvent k ev s) = effects s @ Dispatched (currentState s) ev # r1"
    "\<forall>e \<in> set r1. is_reaction e"
    using dispatchEvent_effects by blast
  show ?thesis
  proof (cases "slot_of ev")
    case None
    then show ?thesis using r1 by (simp add: dispatch_def)
  next
    case (Some sl)
    obtain r2 where r2: "effects (fire k sl ev (dispatchEvent k ev s)) = effects (dispatchEvent k ev s) @ r2"
      "\<forall>e \<in> set r2. is_reaction e"
      using fire_effects by blast
    have "effects (dispatch k ev s) = effects s @ Dispatched (currentState s) ev # (r1 @ r2)"
      using Some r1 r2 by (simp add: dispatch_def)
    moreover have "\<forall>e \<in> set (r1 @ r2). is_reaction e" using r1 r2 by auto
    ultimately show ?thesis by blast
  qed
qed

lemma reaction_messages: "\<forall>e \<in> set rest. is_reaction e \<Longrightarrow> messages rest = []"
proof -
  assume a: "\<forall>e \<in> set rest. is_reaction e"
  have "\<And>e. is_reaction e \<Longrightarrow> \<not> is_message e" by (case_tac e) auto
  then show ?thesis using a by (auto simp: messages_def filter_empty_conv)
qed

lemma messages_append: "messages (xs @ ys) = messages xs @ messages ys"
  by (simp add: messages_def)

lemma dispatch_messages:
  "messages (effects (dispatch k ev s)) =
     messages (effects s) @ messages [Dispatched (currentState s) ev]"
proof -
  obtain rest where r: "effects (dispatch k ev s) = effects s @ Dispatched (currentState s) ev # rest"
    "\<forall>e \<in> set rest. is_reaction e"
    using dispatch_effects by blast
  have "effects (dispatch k ev s) = effects s @ [Dispatched (currentState s) ev] @ rest"
    using r(1) by simp
  then show ?thesis using reaction_messages [OF r(2)] by (simp only: messages_append) simp
qed

lemma close_absorbing:
  "currentState (dispatchEvent k ev s) = currentState s \<or> currentState (dispatchEvent k ev s) = CLOSED"
  "currentState (fire k sl ev s) = currentState s \<or> currentState (fire k sl ev s) = CLOSED"
  by (simp_all add: dispatchEvent_def fire_def Let_def close_fields split: option.splits)

lemma dispatch_currentState:
  "currentState (dispatch k ev s) = currentState s \<or> currentState (dispatch k ev s) = CLOSED"
proof (cases "slot_of ev")
  case None
  then show ?thesis using close_absorbing(1) [of k ev s] by (simp add: dispatch_def)
next
  case (Some sl)
  then show ?thesis
    using close_absorbing(1) [of k ev s] close_absorbing(2) [of k sl ev "dispatchEvent k ev s"]
    by (auto simp: dispatch_def)
qed

lemma dispatchEvent_timeout:
  "currentState (dispatchEvent k ev s) \<noteq> CLOSED \<Longrightarrow> timeout (dispatchEvent k ev s) = timeout s"
  "currentState s \<noteq> CLOSED \<Longrightarrow> currentState (dispatchEvent k ev s) = CLOSED \<Longrightarrow>
     timeout (dispatchEvent k ev s) = None"
  by (simp_all add: dispatchEvent_def Let_def close_fields split: if_splits)

lemma fire_timeout:
  "currentState (fire k sl ev s) \<noteq> CLOSED \<Longrightarrow> timeout (fire k sl ev s) = timeout s"
  "currentState s \<noteq> CLOSED \<Longrightarrow> currentState (fire k sl ev s) = CLOSED \<Longrightarrow>
     timeout (fire k sl ev s) = None"
  "timeout s = None \<Longrightarrow> timeout (fire k sl ev s) = None"
  by (simp_all add: fire_def Let_def close_fields split: option.splits if_splits)

lemma dispatch_timeout:
  "currentState (dispatch k ev s) \<noteq> CLOSED \<Longrightarrow> timeout (dispatch k ev s) = timeout s"
  "currentState s \<noteq> CLOSED \<Longrightarrow> currentState (dispatch k ev s) = CLOSED \<Longrightarrow>
     timeout (dispatch k ev s) = None"
proof -
  assume a: "currentState (dispatch k ev s) \<noteq> CLOSED"
  show "timeout (dispatch k ev s) = timeout s"
  proof (cases "slot_of ev")
    case None
    then show ?thesis using a dispatchEvent_timeout(1) [of k ev s] by (simp add: dispatch_def)
  next
    case (Some sl)
    have f: "currentState (fire k sl ev (dispatchEvent k ev s)) \<noteq> CLOSED"
      using a Some by (simp add: dispatch_def)
    then have "currentState (dispatchEvent k ev s) \<noteq> CLOSED"
      using close_absorbing(2) [of k sl ev "dispatchEvent k ev s"] by auto
    then show ?thesis
      using Some fire_timeout(1) [OF f] dispatchEvent_timeout(1) [of k ev s] by (simp add: dispatch_def)
  qed
next
  assume a: "currentState s \<noteq> CLOSED" "currentState (dispatch k ev s) = CLOSED"
  show "timeout (dispatch k ev s) = None"
  proof (cases "slot_of ev")
    case None
    then show ?thesis using a dispatchEvent_timeout(2) [of s k ev] by (simp add: dispatch_def)
  next
    case (Some sl)
    show ?thesis
    proof (cases "currentState (dispatchEvent k ev s) = CLOSED")
      case True
      then show ?thesis
        using Some a dispatchEvent_timeout(2) [of s k ev] fire_timeout(3) [of "dispatchEvent k ev s" k sl ev]
        by (simp add: dispatch_def)
    next
      case False
      then show ?thesis using Some a fire_timeout(2) [of "dispatchEvent k ev s" k sl ev]
        by (simp add: dispatch_def)
    qed
  qed
qed

lemma field_effect_sel:
  "currentState (field_effect f v s) = currentState s"
  "readyState (field_effect f v s) = readyState s"
  "abortController (field_effect f v s) = abortController s"
  "lastEventId (field_effect f v s) = lastEventId s"
  "url (field_effect f v s) = url s"
  by (simp_all add: field_effect_def Let_def)

lemma flush_returned:
  "currentState s \<noteq> CLOSED \<Longrightarrow> fst (flush k s) = (currentState (snd (flush k s)) = CLOSED)"
  by (simp add: flush_def Let_def)

lemma flush_continue:
  "\<not> fst (flush k s) \<Longrightarrow> currentState (snd (flush k s)) = currentState s"
proof -
  assume a: "\<not> fst (flush k s)"
  have d: "\<And>ev x. currentState (dispatch k ev x) \<noteq> CLOSED \<Longrightarrow>
          currentState (dispatch k ev x) = currentState x"
    using dispatch_currentState by blast
  show ?thesis using a
    by (auto simp add: flush_def Let_def split: if_splits dest!: d)
qed

lemma end_of_line_blank:
  "end_of_line k [] t s =
     (if fst (flush k s) then flush k s
      else (False, (snd (flush k s))\<lparr>state := (if t = CR then AFTER_CR else FIELD_START)\<rparr>))"
  by (cases "flush k s") (simp add: end_of_line_def)

lemma end_of_line_returned:
  "currentState s \<noteq> CLOSED \<Longrightarrow>
   fst (end_of_line k L t s) = (currentState (snd (end_of_line k L t s)) = CLOSED)"
  using flush_returned [of s k]
  by (cases "L = []") (simp_all add: end_of_line_blank end_of_line_field field_effect_sel)

lemma end_of_line_continue:
  "\<not> fst (end_of_line k L t s) \<Longrightarrow> currentState (snd (end_of_line k L t s)) = currentState s"
  using flush_continue [of k s]
  by (cases "L = []") (simp_all add: end_of_line_blank end_of_line_field field_effect_sel split: if_splits)

lemma flush_returned_closed:
  "fst (flush k s) \<Longrightarrow> currentState (snd (flush k s)) = CLOSED"
  by (simp add: flush_def Let_def split: if_splits)

lemma end_of_line_returned_closed:
  "fst (end_of_line k L t s) \<Longrightarrow> currentState (snd (end_of_line k L t s)) = CLOSED"
  using flush_returned_closed [of k s]
  by (cases "L = []") (simp_all add: end_of_line_blank end_of_line_field split: if_splits)

subsection \<open>Lines in sequence\<close>

lemma run_lines_currentState:
  "currentState (run_lines k inp s) = currentState s \<or> currentState (run_lines k inp s) = CLOSED"
proof (induction "length inp" arbitrary: inp s rule: less_induct)
  case less
  show ?case
  proof (cases inp)
    case Nil
    then show ?thesis by (simp add: run_lines_Nil)
  next
    case (Cons c cs)
    show ?thesis
    proof (cases "state s = AFTER_CR \<and> c = LF")
      case True
      then show ?thesis using Cons less [of cs "s\<lparr>state := FIELD_START\<rparr>"]
        by (simp add: run_lines_swallow)
    next
      case False
      show ?thesis
      proof (cases "dropWhile (\<lambda>c. \<not> is_terminator c) inp")
        case Nil
        then show ?thesis using Cons run_lines_other [OF False, of k cs] by simp
      next
        case dw: (Cons t rest)
        let ?e = "end_of_line k (takeWhile (\<lambda>c. \<not> is_terminator c) inp) t (s\<lparr>state := FIELD_START\<rparr>)"
        have len: "length rest < length inp"
          using length_dropWhile_le [of "\<lambda>c. \<not> is_terminator c" inp] dw by simp
        have rl: "run_lines k inp s = (if fst ?e then snd ?e else run_lines k rest (snd ?e))"
          using Cons dw run_lines_other [OF False, of k cs] by simp
        show ?thesis
        proof (cases "fst ?e")
          case True
          then show ?thesis using rl end_of_line_returned_closed [of k _ t "s\<lparr>state := FIELD_START\<rparr>"]
            by auto
        next
          case False
          then show ?thesis using rl less [OF len, of "snd ?e"] end_of_line_continue [OF False]
            by auto
        qed
      qed
    qed
  qed
qed

lemma run_lines_append:
  assumes "currentState s \<noteq> CLOSED" "P1 = [] \<or> is_terminator (last P1)"
  shows "run_lines k (P1 @ P2) s =
     (if currentState (run_lines k P1 s) = CLOSED then run_lines k P1 s
      else run_lines k P2 (run_lines k P1 s))"
  using assms
proof (induction "length P1" arbitrary: P1 s rule: less_induct)
  case less
  note op = less.prems(1) and tm = less.prems(2)
  show ?case
  proof (cases "P1 = []")
    case True
    then show ?thesis using op by (simp add: run_lines_Nil)
  next
    case ne: False
    show ?thesis
    proof (cases "state s = AFTER_CR \<and> hd P1 = LF")
      case True
      then obtain cs where P1: "P1 = LF # cs" using ne by (cases P1) auto
      have "cs = [] \<or> is_terminator (last cs)" using tm P1 by (cases cs) auto
      then show ?thesis
        using less.hyps [of cs "s\<lparr>state := FIELD_START\<rparr>"] P1 True op
        by (simp add: run_lines_swallow)
    next
      case nsw: False
      from ne tm obtain L t rest where P1: "P1 = L @ t # rest"
        and nt: "\<forall>c \<in> set L. \<not> is_terminator c" and t: "is_terminator t"
        using terminated_split by blast
      have c: "\<not> (state s = AFTER_CR \<and> L = [] \<and> t = LF)"
        using nsw P1 by (cases L) auto
      let ?e = "end_of_line k L t (s\<lparr>state := FIELD_START\<rparr>)"
      have r1: "run_lines k P1 s = (if fst ?e then snd ?e else run_lines k rest (snd ?e))"
        unfolding P1 using run_lines_line [OF nt t c] by simp
      have r2: "run_lines k (P1 @ P2) s = (if fst ?e then snd ?e else run_lines k (rest @ P2) (snd ?e))"
        unfolding P1 using run_lines_line [OF nt t c, of k "rest @ P2"] by simp
      show ?thesis
      proof (cases "fst ?e")
        case True
        then have "currentState (snd ?e) = CLOSED"
          using end_of_line_returned [of "s\<lparr>state := FIELD_START\<rparr>" k L t] op by simp
        then show ?thesis using r1 r2 True by simp
      next
        case False
        have o: "currentState (snd ?e) \<noteq> CLOSED"
          using end_of_line_continue [OF False] op by simp
        have "rest = [] \<or> is_terminator (last rest)" using tm P1 by (cases rest) auto
        then show ?thesis using less.hyps [of rest "snd ?e"] o P1 r1 r2 False by simp
      qed
    qed
  qed
qed

lemma run_lines_state:
  assumes "state s = FIELD_START \<or> state s = AFTER_CR" "inp = [] \<or> is_terminator (last inp)"
  shows "state (run_lines k inp s) = FIELD_START \<or> state (run_lines k inp s) = AFTER_CR"
  using assms
proof (induction "length inp" arbitrary: inp s rule: less_induct)
  case less
  note st = less.prems(1) and tm = less.prems(2)
  show ?case
  proof (cases "inp = []")
    case True
    then show ?thesis using st by (simp add: run_lines_Nil)
  next
    case ne: False
    show ?thesis
    proof (cases "state s = AFTER_CR \<and> hd inp = LF")
      case True
      then obtain cs where inp: "inp = LF # cs" using ne by (cases inp) auto
      have "cs = [] \<or> is_terminator (last cs)" using tm inp by (cases cs) auto
      then show ?thesis
        using less.hyps [of cs "s\<lparr>state := FIELD_START\<rparr>"] inp True
        by (simp add: run_lines_swallow)
    next
      case nsw: False
      from ne tm obtain L t rest where inp: "inp = L @ t # rest"
        and nt: "\<forall>c \<in> set L. \<not> is_terminator c" and t: "is_terminator t"
        using terminated_split by blast
      have c: "\<not> (state s = AFTER_CR \<and> L = [] \<and> t = LF)"
        using nsw inp by (cases L) auto
      let ?e = "end_of_line k L t (s\<lparr>state := FIELD_START\<rparr>)"
      have r1: "run_lines k inp s = (if fst ?e then snd ?e else run_lines k rest (snd ?e))"
        unfolding inp using run_lines_line [OF nt t c] by simp
      show ?thesis
      proof (cases "fst ?e")
        case True
        have "state (snd ?e) = FIELD_START"
        proof (cases "L = []")
          case True
          then show ?thesis using \<open>fst ?e\<close>
            by (simp add: end_of_line_blank flush_def Let_def dispatch_sel split: if_splits)
        next
          case False
          then show ?thesis using \<open>fst ?e\<close> by (simp add: end_of_line_field)
        qed
        then show ?thesis using r1 True by simp
      next
        case False
        have "rest = [] \<or> is_terminator (last rest)" using tm inp by (cases rest) auto
        moreover have "state (snd ?e) = FIELD_START \<or> state (snd ?e) = AFTER_CR"
          using end_of_line_state [OF False] by simp
        ultimately show ?thesis using less.hyps [of rest "snd ?e"] inp r1 False by simp
      qed
    qed
  qed
qed

subsection \<open>One call of \<open>onProgress\<close>\<close>

lemma onProgress_scan:
  assumes "currentState s = OPEN"
  shows "onProgress k now c s =
         scan k (chunk_of (textBuffer s) c) 0
           (activity (buffer_of (textBuffer s) c)
              (if c \<noteq> [] then Some now else wasActivity s) (textLength s + length c) s)"
proof -
  have n: "(lastTerminator c = - 1) = (complete_part c = [])" by (rule lastTerminator_none)
  have p: "complete_part c = [] \<Longrightarrow> pending_part c = c"
    using complete_pending [of c] by simp
  have ch: "(if lastTerminator c \<noteq> - 1 then textBuffer s else []) @ slice c 0 (lastTerminator c + 1) =
            chunk_of (textBuffer s) c"
    by (simp add: n slice_lastTerminator chunk_of_def)
  have bf: "(if lastTerminator c = - 1 then textBuffer s else []) @ slice_from c (lastTerminator c + 1) =
            buffer_of (textBuffer s) c"
    using p by (simp add: n slice_lastTerminator buffer_of_def)
  have o: "onProgress k now c s =
      scan k (chunk_of (textBuffer s) c) 0
        (if c \<noteq> []
         then (s\<lparr>textBuffer := buffer_of (textBuffer s) c\<rparr>)
                \<lparr>wasActivity := Some now,
                 textLength := textLength (s\<lparr>textBuffer := buffer_of (textBuffer s) c\<rparr>) + length c\<rparr>
         else s\<lparr>textBuffer := buffer_of (textBuffer s) c\<rparr>)"
    unfolding onProgress_def Let_def ch bf using assms by (simp only: refl if_True)
  show ?thesis
  proof (cases "c = []")
    case True
    then show ?thesis unfolding o by (simp add: activity_def)
  next
    case False
    then show ?thesis unfolding o by (simp add: activity_def)
  qed
qed

lemma same_but_offsets_core: "same_but_offsets c s \<Longrightarrow> core c = core s"
  by (simp add: same_but_offsets_def core_def activity_offs [symmetric])

lemma same_but_offsets_sel:
  assumes "same_but_offsets c s"
  shows "textBuffer c = textBuffer s" "textLength c = textLength s" "currentState c = currentState s"
proof -
  have e: "offs 0 0 c = offs 0 0 s" using assms by (simp add: same_but_offsets_def)
  show "textBuffer c = textBuffer s" using arg_cong [OF e, of textBuffer] by (simp add: offs_sel)
  show "textLength c = textLength s" using arg_cong [OF e, of textLength] by (simp add: offs_sel)
  show "currentState c = currentState s" using arg_cong [OF e, of currentState] by (simp add: offs_sel)
qed

lemma core_sel:
  "currentState (core s) = currentState s" "state (core s) = state s"
  "effects (core s) = effects s"
  by (simp_all add: core_def offs_sel activity_sel)

lemma core_activity: "core (activity a b n s) = core s"
  by (simp add: core_def activity_activity)

lemma core_core: "core (core s) = core s"
  by (simp add: core_def activity_offs activity_activity offs_offs)

lemma onProgress_open:
  assumes "currentState s = OPEN" "state s = FIELD_START \<or> state s = AFTER_CR"
  shows "core (onProgress k now c s) = run_lines k (chunk_of (textBuffer s) c) (core s)"
    and "textBuffer (onProgress k now c s) = buffer_of (textBuffer s) c"
    and "textLength (onProgress k now c s) = textLength s + length c"
    and "state (onProgress k now c s) = FIELD_START \<or> state (onProgress k now c s) = AFTER_CR"
proof -
  let ?a = "activity (buffer_of (textBuffer s) c)
              (if c \<noteq> [] then Some now else wasActivity s) (textLength s + length c)"
  let ?P = "chunk_of (textBuffer s) c"
  have st: "state (?a s) = FIELD_START \<or> state (?a s) = AFTER_CR"
    using assms(2) by (simp add: activity_sel)
  have "same_but_offsets (scan k ([] @ ?P) (length ([] :: string)) (?a s)) (run_lines k ?P (?a s))"
    by (rule scan_run_lines [OF same_but_offsets_refl st chunk_of_last])
  then have sb: "same_but_offsets (onProgress k now c s) (?a (run_lines k ?P s))"
    using onProgress_scan [OF assms(1)] by (simp add: run_lines_activity)
  show "core (onProgress k now c s) = run_lines k ?P (core s)"
    using same_but_offsets_core [OF sb] by (simp add: core_activity run_lines_core)
  show "textBuffer (onProgress k now c s) = buffer_of (textBuffer s) c"
    using same_but_offsets_sel(1) [OF sb] by (simp add: activity_sel)
  show "textLength (onProgress k now c s) = textLength s + length c"
    using same_but_offsets_sel(2) [OF sb] by (simp add: activity_sel)
  have rs: "state (run_lines k ?P s) = FIELD_START \<or> state (run_lines k ?P s) = AFTER_CR"
    by (rule run_lines_state [OF assms(2) chunk_of_last])
  show "state (onProgress k now c s) = FIELD_START \<or> state (onProgress k now c s) = AFTER_CR"
    using same_but_offsets_state [OF sb] rs by (simp add: activity_sel)
qed

lemma onProgress_not_open: "currentState s \<noteq> OPEN \<Longrightarrow> onProgress k now c s = s"
  by (simp add: onProgress_def)

lemma onProgress_state:
  assumes "state s = FIELD_START \<or> state s = AFTER_CR"
  shows "state (onProgress k now c s) = FIELD_START \<or> state (onProgress k now c s) = AFTER_CR"
  using assms onProgress_open(4) [of s k now c] onProgress_not_open [of s k now c]
  by (cases "currentState s = OPEN") auto

lemma onProgress_currentState:
  assumes "currentState s = OPEN" "state s = FIELD_START \<or> state s = AFTER_CR"
  shows "currentState (onProgress k now c s) = OPEN \<or> currentState (onProgress k now c s) = CLOSED"
proof -
  have "currentState (core (onProgress k now c s)) = currentState (core s) \<or>
        currentState (core (onProgress k now c s)) = CLOSED"
    unfolding onProgress_open(1) [OF assms] by (rule run_lines_currentState)
  then show ?thesis using assms(1) by (simp add: core_sel)
qed

subsection \<open>Comparing runs\<close>

lemma forget_eqI:
  assumes "core a = core b"
    and "currentState a \<noteq> CLOSED \<Longrightarrow> textBuffer a = textBuffer b \<and> textLength a = textLength b"
  shows "forget a = forget b"
proof -
  have "currentState a = currentState b"
    using arg_cong [OF assms(1), of currentState] by (simp add: core_sel)
  then show ?thesis using assms by (simp add: forget_def)
qed

lemma core_forget: "core (forget s) = core s"
  by (simp add: forget_def core_core core_activity)

lemma forget_eqD:
  assumes "forget a = forget b"
  shows "core a = core b" "currentState a = currentState b" "state a = state b"
    and "currentState a \<noteq> CLOSED \<Longrightarrow> textBuffer a = textBuffer b \<and> textLength a = textLength b"
proof -
  show c: "core a = core b" using arg_cong [OF assms, of core] by (simp add: core_forget)
  show cs: "currentState a = currentState b"
    using arg_cong [OF c, of currentState] by (simp add: core_sel)
  show "state a = state b" using arg_cong [OF c, of state] by (simp add: core_sel)
  assume "currentState a \<noteq> CLOSED"
  then show "textBuffer a = textBuffer b \<and> textLength a = textLength b"
    using cs arg_cong [OF assms, of textBuffer] arg_cong [OF assms, of textLength]
    by (simp add: forget_def activity_sel)
qed

lemma onProgress_cong:
  assumes "forget x = forget y" "state x = FIELD_START \<or> state x = AFTER_CR"
  shows "forget (onProgress k t c x) = forget (onProgress k t' c y)"
proof (cases "currentState x = OPEN")
  case True
  note d = forget_eqD [OF assms(1)]
  have oy: "currentState y = OPEN" using True d(2) by simp
  have sy: "state y = FIELD_START \<or> state y = AFTER_CR" using assms(2) d(3) by simp
  have tb: "textBuffer x = textBuffer y" "textLength x = textLength y" using d(4) True by auto
  show ?thesis
    by (rule forget_eqI)
       (simp_all add: onProgress_open [OF True assms(2)] onProgress_open [OF oy sy] d(1) tb)
next
  case False
  then have "currentState y \<noteq> OPEN" using forget_eqD(2) [OF assms(1)] by simp
  then show ?thesis using False assms(1) by (simp add: onProgress_not_open)
qed

lemma onProgress_twice:
  assumes "state s = FIELD_START \<or> state s = AFTER_CR"
  shows "forget (onProgress k t2 c2 (onProgress k t1 c1 s)) = forget (onProgress k t (c1 @ c2) s)"
proof (cases "currentState s = OPEN")
  case False
  then show ?thesis by (simp add: onProgress_not_open)
next
  case True
  let ?y = "onProgress k t1 c1 s" and ?z = "onProgress k t (c1 @ c2) s"
  let ?P1 = "chunk_of (textBuffer s) c1" and ?P2 = "chunk_of (buffer_of (textBuffer s) c1) c2"
  note y = onProgress_open [OF True assms, of k t1 c1]
  note z = onProgress_open [OF True assms, of k t "c1 @ c2"]
  have oc: "currentState (core s) \<noteq> CLOSED" using True by (simp add: core_sel)
  have app: "run_lines k (?P1 @ ?P2) (core s) =
     (if currentState (run_lines k ?P1 (core s)) = CLOSED then run_lines k ?P1 (core s)
      else run_lines k ?P2 (run_lines k ?P1 (core s)))"
    by (rule run_lines_append [OF oc chunk_of_last])
  have cy: "currentState ?y = currentState (run_lines k ?P1 (core s))"
    using arg_cong [OF y(1), of currentState] by (simp add: core_sel)
  have zc: "core ?z = run_lines k (?P1 @ ?P2) (core s)"
    unfolding z(1) chunk_of_append ..
  have yc: "run_lines k ?P1 (core s) = core ?y"
    unfolding y(1) ..
  show ?thesis
  proof (cases "currentState ?y = CLOSED")
    case c: True
    have "core ?z = core ?y" unfolding zc app using c cy yc by simp
    moreover have "onProgress k t2 c2 ?y = ?y" using c by (simp add: onProgress_not_open)
    ultimately show ?thesis using c by (intro forget_eqI) simp_all
  next
    case nc: False
    then have oy: "currentState ?y = OPEN"
      using onProgress_currentState [OF True assms, of k t1 c1] by simp
    note w = onProgress_open [OF oy y(4), of k t2 c2]
    have "core (onProgress k t2 c2 ?y) = run_lines k ?P2 (run_lines k ?P1 (core s))"
      unfolding w(1) y(2) yc ..
    also have "\<dots> = core ?z" unfolding zc app using nc cy by simp
    finally have 1: "core (onProgress k t2 c2 ?y) = core ?z" .
    have 2: "textBuffer (onProgress k t2 c2 ?y) = textBuffer ?z"
      unfolding w(2) y(2) z(2) buffer_of_append ..
    have 3: "textLength (onProgress k t2 c2 ?y) = textLength ?z"
      unfolding w(3) y(3) z(3) by simp
    show ?thesis using 1 2 3 by (intro forget_eqI) simp_all
  qed
qed

lemma feed_snoc: "feed k (tcs @ [(t, c)]) s = onProgress k t c (feed k tcs s)"
  by (simp add: feed_def)

lemma feed_state:
  assumes "state s = FIELD_START \<or> state s = AFTER_CR"
  shows "state (feed k tcs s) = FIELD_START \<or> state (feed k tcs s) = AFTER_CR"
proof (induction tcs rule: rev_induct)
  case Nil
  show ?case using assms by (simp add: feed_def)
next
  case (snoc tc tcs)
  obtain t c where tc: "tc = (t, c)" by (cases tc)
  show ?case unfolding tc feed_snoc by (rule onProgress_state [OF snoc])
qed

lemma feed_forget:
  assumes "state s = FIELD_START \<or> state s = AFTER_CR"
  shows "forget (feed k tcs s) = forget (onProgress k now (concat (map snd tcs)) s)"
proof (induction tcs arbitrary: now rule: rev_induct)
  case Nil
  have "onProgress k now [] s = s"
  proof (cases "currentState s = OPEN")
    case True
    have "forget (onProgress k now [] s) = forget s"
      by (rule forget_eqI)
         (simp_all add: onProgress_open [OF True assms] chunk_of_def buffer_of_def
            complete_part_def run_lines_Nil)
    show ?thesis using onProgress_scan [OF True, of k now "[]"]
      by (simp add: chunk_of_def buffer_of_def complete_part_def scan_end activity_def)
  next
    case False
    then show ?thesis by (simp add: onProgress_not_open)
  qed
  then show ?case by (simp add: feed_def)
next
  case (snoc tc tcs)
  obtain t c where tc: "tc = (t, c)" by (cases tc)
  have "forget (feed k (tcs @ [tc]) s) =
        forget (onProgress k t c (onProgress k now (concat (map snd tcs)) s))"
    unfolding tc feed_snoc by (rule onProgress_cong [OF snoc feed_state [OF assms]])
  also have "\<dots> = forget (onProgress k now (concat (map snd tcs) @ c) s)"
    by (rule onProgress_twice [OF assms])
  finally show ?case by (simp add: tc)
qed

subsection \<open>Texts made of lines\<close>

lemma newline_cases:
  assumes "newline nl"
  obtains "nl = [LF]" | "nl = [CR]" | "nl = [CR, LF]"
  using assms by (auto simp: newline_def)

lemma lines_text_Cons: "lines_text nl (L # Ls) = L @ nl @ lines_text nl Ls"
  by (simp add: lines_text_def)

lemma lines_text_Nil: "lines_text nl [] = []"
  by (simp add: lines_text_def)

lemma lines_text_append: "lines_text nl (Ls @ Ms) = lines_text nl Ls @ lines_text nl Ms"
  by (simp add: lines_text_def)

lemma lines_text_last:
  assumes "newline nl"
  shows "lines_text nl Ls = [] \<or> is_terminator (last (lines_text nl Ls))"
proof (cases Ls rule: rev_cases)
  case Nil
  then show ?thesis by (simp add: lines_text_def)
next
  case (snoc Ms L)
  then show ?thesis using assms
    by (auto simp: lines_text_def newline_def is_terminator_def)
qed

lemma complete_part_terminated:
  "xs = [] \<or> is_terminator (last xs) \<Longrightarrow> complete_part xs = xs"
  by (cases xs rule: rev_cases) (auto simp: complete_part_snoc complete_part_def)

lemma run_lines_newline:
  assumes nl: "newline nl" and nt: "no_terminator L"
    and st: "state s = FIELD_START \<or> hd nl = CR \<or> L \<noteq> []"
  shows "run_lines k (L @ nl @ rest) s =
     (if fst (end_of_line k L (hd nl) (s\<lparr>state := FIELD_START\<rparr>))
      then snd (end_of_line k L (hd nl) (s\<lparr>state := FIELD_START\<rparr>))
      else run_lines k rest
             ((snd (end_of_line k L (hd nl) (s\<lparr>state := FIELD_START\<rparr>)))
                \<lparr>state := after_newline nl\<rparr>))"
proof -
  let ?e = "end_of_line k L (hd nl) (s\<lparr>state := FIELD_START\<rparr>)"
  have nt': "\<forall>c \<in> set L. \<not> is_terminator c" using nt by (simp add: no_terminator_def)
  have t: "is_terminator (hd nl)" using nl by (auto simp: newline_def is_terminator_def)
  have c: "\<not> (state s = AFTER_CR \<and> L = [] \<and> hd nl = LF)" using st by auto
  obtain tl' where nl': "nl = hd nl # tl'" using nl by (auto simp: newline_def)
  have r: "run_lines k (L @ nl @ rest) s =
           (if fst ?e then snd ?e else run_lines k (tl' @ rest) (snd ?e))"
    using run_lines_line [OF nt' t c, of k "tl' @ rest"] nl' by (metis append_Cons)
  show ?thesis
  proof (cases "fst ?e")
    case True
    then show ?thesis using r by simp
  next
    case False
    have se: "state (snd ?e) = (if hd nl = CR then AFTER_CR else FIELD_START)"
      using end_of_line_state [OF False] .
    from nl show ?thesis
    proof (cases rule: newline_cases)
      case 1
      then have "tl' = []" using nl' by simp
      moreover have "(snd ?e)\<lparr>state := after_newline nl\<rparr> = snd ?e"
        using se 1 by (simp add: after_newline_def)
      ultimately show ?thesis using r False by simp
    next
      case 2
      then have "tl' = []" using nl' by simp
      moreover have "(snd ?e)\<lparr>state := after_newline nl\<rparr> = snd ?e"
        using se 2 by (simp add: after_newline_def)
      ultimately show ?thesis using r False by simp
    next
      case 3
      then have "tl' = [LF]" using nl' by simp
      moreover have "state (snd ?e) = AFTER_CR" using se 3 by simp
      ultimately show ?thesis using r False 3
        by (simp add: run_lines_swallow after_newline_def)
    qed
  qed
qed

lemma run_lines_lines_fold:
  assumes nl: "newline nl" and nt: "\<forall>L \<in> set Ls. no_terminator L"
    and st: "state s = FIELD_START \<or> hd nl = CR \<or> (Ls \<noteq> [] \<and> hd Ls \<noteq> [])"
  shows "run_lines k (lines_text nl Ls @ rest) s =
     (if fst (lines_fold k nl Ls s) then snd (lines_fold k nl Ls s)
      else run_lines k rest (snd (lines_fold k nl Ls s)))"
  using nt st
proof (induction Ls arbitrary: s)
  case Nil
  show ?case by (simp add: lines_text_Nil)
next
  case (Cons L Ls)
  let ?e = "end_of_line k L (hd nl) (s\<lparr>state := FIELD_START\<rparr>)"
  let ?s' = "(snd ?e)\<lparr>state := after_newline nl\<rparr>"
  have st1: "state s = FIELD_START \<or> hd nl = CR \<or> L \<noteq> []" using Cons.prems(2) by auto
  have nt1: "no_terminator L" using Cons.prems(1) by simp
  have r: "run_lines k (lines_text nl (L # Ls) @ rest) s =
       (if fst ?e then snd ?e else run_lines k (lines_text nl Ls @ rest) ?s')"
    using run_lines_newline [OF nl nt1 st1, of k "lines_text nl Ls @ rest"]
    by (simp add: lines_text_Cons)
  have st2: "state ?s' = FIELD_START \<or> hd nl = CR \<or> (Ls \<noteq> [] \<and> hd Ls \<noteq> [])"
    using nl by (auto simp: after_newline_def newline_def)
  have IH: "run_lines k (lines_text nl Ls @ rest) ?s' =
     (if fst (lines_fold k nl Ls ?s') then snd (lines_fold k nl Ls ?s')
      else run_lines k rest (snd (lines_fold k nl Ls ?s')))"
    using Cons.IH [OF _ st2] Cons.prems(1) by simp
  show ?case unfolding r IH by simp
qed

subsection \<open>What a field line and a blank line change\<close>

lemma field_effect_buffers:
  "dataBuffer (field_effect f v s) = (if f = ''data'' then dataBuffer s @ LF # v else dataBuffer s)"
  "lastEventIdBuffer (field_effect f v s) = (if f = ''id'' then v else lastEventIdBuffer s)"
  "eventTypeBuffer (field_effect f v s) = (if f = ''event'' then v else eventTypeBuffer s)"
  by (simp_all add: field_effect_def Let_def)

lemma field_effect_retry:
  "initialRetry (field_effect f v s) =
     (if f = ''retry'' then parseDuration (Some v) (initialRetry s) else initialRetry s)"
  "retry (field_effect f v s) =
     (if f = ''retry'' then parseDuration (Some v) (initialRetry s) else retry s)"
  by (simp_all add: field_effect_def Let_def)

lemma field_effect_messages: "messages (effects (field_effect f v s)) = messages (effects s)"
  by (simp add: field_effect_def Let_def messages_def)

lemma flush_message:
  "messages (effects (snd (flush k s))) =
     messages (effects s) @
     (if dataBuffer s \<noteq> []
      then [Dispatched (currentState s)
              (MessageEvent (if eventTypeBuffer s = [] then ''message'' else eventTypeBuffer s)
                 (slice_from (dataBuffer s) 1) (lastEventIdBuffer s))]
      else [])"
  by (simp add: flush_def Let_def dispatch_messages) (simp add: messages_def)

lemma flush_sel:
  "lastEventIdBuffer (snd (flush k s)) = lastEventIdBuffer s"
  "lastEventId (snd (flush k s)) = (if dataBuffer s \<noteq> [] then lastEventIdBuffer s else lastEventId s)"
  "initialRetry (snd (flush k s)) = initialRetry s"
  "retry (snd (flush k s)) = retry s"
  "state (snd (flush k s)) = state s"
  by (simp_all add: flush_def Let_def dispatch_sel)

lemma flush_cleared:
  "\<not> fst (flush k s) \<Longrightarrow> dataBuffer (snd (flush k s)) = [] \<and> eventTypeBuffer (snd (flush k s)) = []"
  by (simp add: flush_def Let_def split: if_splits)

subsection \<open>Concrete states\<close>

lemma opened_value:
  "opened = \<lparr>url = example_url, readyState = OPEN, initialRetry = 1000, heartbeatTimeout = 45000,
      lastEventId = [], retry = 1000, wasActivity = Some 5, textLength = 0,
      abortController = True, timeout = Some 45000, currentState = OPEN,
      dataBuffer = [], lastEventIdBuffer = [], eventTypeBuffer = [], textBuffer = [],
      state = FIELD_START, fieldStart = 0, valueStart = 0,
      effects = [SetTimeout 45000, TransportOpen example_url,
                 Dispatched OPEN (OpenEvent 200 ''OK'' [])]\<rparr>"
  by code_simp

lemma pending_record_value:
  "pending_record = \<lparr>url = example_url, readyState = OPEN, initialRetry = 1000, heartbeatTimeout = 45000,
      lastEventId = [], retry = 1000, wasActivity = Some 6, textLength = 8,
      abortController = True, timeout = Some 45000, currentState = OPEN,
      dataBuffer = LF # ''x'', lastEventIdBuffer = [], eventTypeBuffer = [], textBuffer = [],
      state = FIELD_START, fieldStart = 0, valueStart = 5,
      effects = [SetTimeout 45000, TransportOpen example_url,
                 Dispatched OPEN (OpenEvent 200 ''OK'' [])]\<rparr>"
  by code_simp

subsection \<open>One iteration of the loop\<close>

lemma field_char_sel:
  "lastEventId (field_char c p s) = lastEventId s"
  "effects (field_char c p s) = effects s"
  "dataBuffer (field_char c p s) = dataBuffer s"
  "eventTypeBuffer (field_char c p s) = eventTypeBuffer s"
  "lastEventIdBuffer (field_char c p s) = lastEventIdBuffer s"
  "currentState (field_char c p s) = currentState s"
  by (simp_all add: field_char_def Let_def)

lemma field_line_sel:
  "lastEventId (field_line chunk p s) = lastEventId s"
  "messages (effects (field_line chunk p s)) = messages (effects s)"
  "currentState (field_line chunk p s) = currentState s"
  by (simp_all add: field_line_def Let_def field_effect_sel field_effect_messages)

lemma step_dispatch_point:
  assumes "chunk ! p = LF \<or> chunk ! p = CR"
    and "state s = FIELD_START \<or> (state s = AFTER_CR \<and> chunk ! p = CR)"
  shows "step k chunk p s = end_of_line k [] (chunk ! p) (s\<lparr>state := FIELD_START\<rparr>)"
proof -
  have t: "is_terminator (chunk ! p)" using assms(1) by (simp add: is_terminator_def)
  show ?thesis
  proof (cases "state s = FIELD_START")
    case True
    then have "s\<lparr>state := FIELD_START\<rparr> = s" by simp
    then show ?thesis using step_blank [OF t True, of k] by simp
  next
    case False
    then have a: "state s = AFTER_CR" "chunk ! p \<noteq> LF" using assms(2) by auto
    show ?thesis using step_after_cr [OF a, of k] step_blank [OF t, of "s\<lparr>state := FIELD_START\<rparr>" k]
      by simp
  qed
qed

lemma step_elsewhere:
  assumes "\<not> ((chunk ! p = LF \<or> chunk ! p = CR) \<and>
              (state s = FIELD_START \<or> (state s = AFTER_CR \<and> chunk ! p = CR)))"
  shows "lastEventId (snd (step k chunk p s)) = lastEventId s \<and>
         messages (effects (snd (step k chunk p s))) = messages (effects s)"
proof (cases "state s = AFTER_CR \<and> chunk ! p = LF")
  case True
  then show ?thesis by (simp add: step_swallow)
next
  case sw: False
  show ?thesis
  proof (cases "is_terminator (chunk ! p)")
    case True
    then have f: "state s \<noteq> FIELD_START" "state s \<noteq> AFTER_CR"
      using assms sw by (auto simp: is_terminator_def)
    show ?thesis using step_field [OF True f, of k] by (simp add: field_line_sel)
  next
    case False
    show ?thesis
    proof (cases "state s = AFTER_CR")
      case True
      then have "step k chunk p s = step k chunk p (s\<lparr>state := FIELD_START\<rparr>)"
        using sw by (simp add: step_after_cr)
      then show ?thesis using step_char [OF False, of "s\<lparr>state := FIELD_START\<rparr>" k]
        by (simp add: field_char_sel)
    next
      case False
      then show ?thesis using step_char [OF \<open>\<not> is_terminator (chunk ! p)\<close> False, of k]
        by (simp add: field_char_sel)
    qed
  qed
qed

subsection \<open>A call of \<open>onProgress\<close> on complete lines\<close>

lemma lines_fold_frame:
  assumes eol: "\<And>k L t s. end_of_line k L t (F s) = (fst (end_of_line k L t s), F (snd (end_of_line k L t s)))"
    and upd: "\<And>s x. (F s)\<lparr>state := x\<rparr> = F (s\<lparr>state := x\<rparr>)"
  shows "lines_fold k nl Ls (F s) = (fst (lines_fold k nl Ls s), F (snd (lines_fold k nl Ls s)))"
  by (induction Ls arbitrary: s) (simp_all add: eol upd)

lemma lines_fold_core:
  "lines_fold k nl Ls (core s) = (fst (lines_fold k nl Ls s), core (snd (lines_fold k nl Ls s)))"
proof -
  have a: "lines_fold k nl Ls (activity [] None 0 s) =
           (fst (lines_fold k nl Ls s), activity [] None 0 (snd (lines_fold k nl Ls s)))"
    by (rule lines_fold_frame) (simp_all add: end_of_line_activity activity_upd)
  have "lines_fold k nl Ls (offs 0 0 (activity [] None 0 s)) =
        (fst (lines_fold k nl Ls (activity [] None 0 s)),
         offs 0 0 (snd (lines_fold k nl Ls (activity [] None 0 s))))"
    by (rule lines_fold_frame) (simp_all add: end_of_line_offs offs_upd)
  then show ?thesis by (simp add: core_def a)
qed

lemma core_eq_sel:
  assumes "core a = core b"
  shows "effects a = effects b" "currentState a = currentState b" "dataBuffer a = dataBuffer b"
    "eventTypeBuffer a = eventTypeBuffer b" "lastEventIdBuffer a = lastEventIdBuffer b"
    "lastEventId a = lastEventId b" "initialRetry a = initialRetry b" "retry a = retry b"
    "heartbeatTimeout a = heartbeatTimeout b" "timeout a = timeout b" "state a = state b"
    "abortController a = abortController b" "readyState a = readyState b"
proof -
  have s: "\<And>f. (\<And>x. f (core x) = f x) \<Longrightarrow> f a = f b"
    using assms by metis
  show "effects a = effects b" by (rule s) (simp add: core_def offs_sel activity_sel)
  show "currentState a = currentState b" by (rule s) (simp add: core_def offs_sel activity_sel)
  show "dataBuffer a = dataBuffer b" by (rule s) (simp add: core_def offs_sel activity_sel)
  show "eventTypeBuffer a = eventTypeBuffer b" by (rule s) (simp add: core_def offs_sel activity_sel)
  show "lastEventIdBuffer a = lastEventIdBuffer b" by (rule s) (simp add: core_def offs_sel activity_sel)
  show "lastEventId a = lastEventId b" by (rule s) (simp add: core_def offs_sel activity_sel)
  show "initialRetry a = initialRetry b" by (rule s) (simp add: core_def offs_sel activity_sel)
  show "retry a = retry b" by (rule s) (simp add: core_def offs_sel activity_sel)
  show "heartbeatTimeout a = heartbeatTimeout b" by (rule s) (simp add: core_def offs_sel activity_sel)
  show "timeout a = timeout b" by (rule s) (simp add: core_def offs_sel activity_sel)
  show "state a = state b" by (rule s) (simp add: core_def offs_sel activity_sel)
  show "abortController a = abortController b" by (rule s) (simp add: core_def offs_sel activity_sel)
  show "readyState a = readyState b" by (rule s) (simp add: core_def offs_sel activity_sel)
qed

lemma onProgress_lines:
  assumes op: "currentState s = OPEN" and tb: "textBuffer s = []"
    and st: "state s = FIELD_START \<or> state s = AFTER_CR"
    and nl: "newline nl" and nt: "\<forall>L \<in> set Ls. no_terminator L"
    and first: "state s = FIELD_START \<or> hd nl = CR \<or> (Ls \<noteq> [] \<and> hd Ls \<noteq> [])"
  shows "core (onProgress k now (lines_text nl Ls) s) = core (snd (lines_fold k nl Ls s))"
    and "textBuffer (onProgress k now (lines_text nl Ls) s) = []"
proof -
  let ?t = "lines_text nl Ls"
  have cp: "complete_part ?t = ?t"
    by (rule complete_part_terminated [OF lines_text_last [OF nl]])
  then have pp: "pending_part ?t = []" using complete_pending [of ?t] by simp
  have ch: "chunk_of (textBuffer s) ?t = ?t" using cp tb by (simp add: chunk_of_def)
  have first': "state (core s) = FIELD_START \<or> hd nl = CR \<or> (Ls \<noteq> [] \<and> hd Ls \<noteq> [])"
    using first by (simp add: core_sel)
  have "run_lines k (?t @ []) (core s) = snd (lines_fold k nl Ls (core s))"
    using run_lines_lines_fold [OF nl nt first', of k "[]"] by (simp add: run_lines_Nil)
  then show "core (onProgress k now ?t s) = core (snd (lines_fold k nl Ls s))"
    using onProgress_open(1) [OF op st, of k now ?t] by (simp add: ch lines_fold_core)
  show "textBuffer (onProgress k now ?t s) = []"
    using onProgress_open(2) [OF op st, of k now ?t] cp pp tb by (simp add: buffer_of_def)
qed

lemma lines_fold_append:
  "lines_fold k nl (As @ Bs) s =
     (if fst (lines_fold k nl As s) then lines_fold k nl As s
      else lines_fold k nl Bs (snd (lines_fold k nl As s)))"
  by (induction As arbitrary: s) simp_all

subsection \<open>The field lines of a record\<close>

lemma fields_fold_Nil: "fields_fold [] s = s"
  by (simp add: fields_fold_def)

lemma fields_fold_Cons:
  "fields_fold (L # Ls) s = fields_fold Ls (field_effect (line_field L) (line_value L) s)"
  by (simp add: fields_fold_def)

lemma fields_fold_snoc:
  "fields_fold (Ls @ [L]) s = field_effect (line_field L) (line_value L) (fields_fold Ls s)"
  by (simp add: fields_fold_def)

lemma fields_fold_state_upd: "fields_fold Ls (s\<lparr>state := x\<rparr>) = (fields_fold Ls s)\<lparr>state := x\<rparr>"
  by (induction Ls arbitrary: s) (simp_all add: fields_fold_Nil fields_fold_Cons field_effect_state_upd)

lemma lines_fold_fields:
  assumes "\<forall>L \<in> set Ls. L \<noteq> []"
  shows "lines_fold k nl Ls s =
           (False, if Ls = [] then s else (fields_fold Ls s)\<lparr>state := after_newline nl\<rparr>)"
  using assms
proof (induction Ls arbitrary: s)
  case Nil
  show ?case by simp
next
  case (Cons L Ls)
  have L: "L \<noteq> []" using Cons.prems by simp
  let ?s1 = "(field_effect (line_field L) (line_value L) s)\<lparr>state := after_newline nl\<rparr>"
  have "lines_fold k nl (L # Ls) s = lines_fold k nl Ls ?s1"
    by (simp add: end_of_line_field [OF L] field_effect_state_upd)
  also have "\<dots> = (False, if Ls = [] then ?s1 else (fields_fold Ls ?s1)\<lparr>state := after_newline nl\<rparr>)"
    using Cons.IH [of ?s1] Cons.prems by simp
  also have "\<dots> = (False, (fields_fold (L # Ls) s)\<lparr>state := after_newline nl\<rparr>)"
    by (simp add: fields_fold_Nil fields_fold_Cons fields_fold_state_upd)
  finally show ?case by simp
qed

lemma field_values_snoc:
  "field_values name (Ls @ [L]) =
     field_values name Ls @ (if line_field L = name then [line_value L] else [])"
  by (simp add: field_values_def)

lemma most_recent_snoc:
  "most_recent name inh (Ls @ [L]) =
     (if line_field L = name then line_value L else most_recent name inh Ls)"
  by (simp add: most_recent_def field_values_snoc)

lemma fields_fold_sel:
  "dataBuffer (fields_fold Ls s) = dataBuffer s @ concat (map ((#) LF) (field_values ''data'' Ls))"
  "lastEventIdBuffer (fields_fold Ls s) = most_recent ''id'' (lastEventIdBuffer s) Ls"
  "eventTypeBuffer (fields_fold Ls s) = most_recent ''event'' (eventTypeBuffer s) Ls"
  "currentState (fields_fold Ls s) = currentState s"
  "lastEventId (fields_fold Ls s) = lastEventId s"
  "messages (effects (fields_fold Ls s)) = messages (effects s)"
proof (induction Ls rule: rev_induct)
  case Nil
  {
    case 1 show ?case by (simp add: fields_fold_Nil field_values_def)
  next
    case 2 show ?case by (simp add: fields_fold_Nil most_recent_def field_values_def)
  next
    case 3 show ?case by (simp add: fields_fold_Nil most_recent_def field_values_def)
  next
    case 4 show ?case by (simp add: fields_fold_Nil)
  next
    case 5 show ?case by (simp add: fields_fold_Nil)
  next
    case 6 show ?case by (simp add: fields_fold_Nil)
  }
next
  case (snoc L Ls)
  {
    case 1 show ?case using snoc(1)
      by (simp add: fields_fold_snoc field_effect_buffers field_values_snoc)
  next
    case 2 show ?case using snoc(2)
      by (simp add: fields_fold_snoc field_effect_buffers most_recent_snoc)
  next
    case 3 show ?case using snoc(3)
      by (simp add: fields_fold_snoc field_effect_buffers most_recent_snoc)
  next
    case 4 show ?case using snoc(4) by (simp add: fields_fold_snoc field_effect_sel)
  next
    case 5 show ?case using snoc(5) by (simp add: fields_fold_snoc field_effect_sel)
  next
    case 6 show ?case using snoc(6) by (simp add: fields_fold_snoc field_effect_messages)
  }
qed

lemma join_values_concat:
  "vs \<noteq> [] \<Longrightarrow> slice_from (concat (map ((#) LF) vs)) 1 = join_values vs"
proof (induction vs rule: join_values.induct)
  case 1
  then show ?case by simp
next
  case (2 v)
  show ?case using slice_from_nat [of "LF # v" 1] by simp
next
  case (3 v w vs)
  have "slice_from (concat (map ((#) LF) (w # vs))) 1 = join_values (w # vs)"
    using 3 by simp
  then have "concat (map ((#) LF) (w # vs)) = LF # join_values (w # vs)"
    using slice_from_nat [of "concat (map ((#) LF) (w # vs))" 1] by simp
  then show ?case using slice_from_nat [of "concat (map ((#) LF) (v # w # vs))" 1] by simp
qed

subsection \<open>Records\<close>

lemma lines_fold_blank:
  "messages (effects (snd (lines_fold k nl [[]] s))) =
     messages (effects s) @
     (if dataBuffer s \<noteq> []
      then [Dispatched (currentState s)
              (MessageEvent (if eventTypeBuffer s = [] then ''message'' else eventTypeBuffer s)
                 (slice_from (dataBuffer s) 1) (lastEventIdBuffer s))]
      else [])"
  "lastEventIdBuffer (snd (lines_fold k nl [[]] s)) = lastEventIdBuffer s"
  using flush_message [of k "s\<lparr>state := FIELD_START\<rparr>"] flush_sel(1) [of k "s\<lparr>state := FIELD_START\<rparr>"]
  by (simp_all add: end_of_line_blank)

lemma most_recent_none: "field_values name Ls = [] \<Longrightarrow> most_recent name inh Ls = inh"
  by (simp add: most_recent_def)

lemma record_delivery:
  assumes op: "currentState s = OPEN" and tb: "textBuffer s = []"
    and st: "state s = FIELD_START \<or> state s = AFTER_CR"
    and nl: "newline nl" and Ls: "\<forall>L \<in> set Ls. L \<noteq> [] \<and> no_terminator L"
    and vs: "field_values ''data'' Ls \<noteq> []"
  shows "messages (effects (onProgress k now (lines_text nl (Ls @ [[]])) s)) =
           messages (effects s) @
           [Dispatched OPEN
              (MessageEvent
                 (if most_recent ''event'' (eventTypeBuffer s) Ls = [] then ''message''
                  else most_recent ''event'' (eventTypeBuffer s) Ls)
                 (slice_from (dataBuffer s @ concat (map ((#) LF) (field_values ''data'' Ls))) 1)
                 (most_recent ''id'' (lastEventIdBuffer s) Ls))]"
    and "lastEventIdBuffer (onProgress k now (lines_text nl (Ls @ [[]])) s) =
           most_recent ''id'' (lastEventIdBuffer s) Ls"
proof -
  have ne: "Ls \<noteq> []" using vs by (auto simp: field_values_def)
  have nb: "\<forall>L \<in> set Ls. L \<noteq> []" using Ls by simp
  have nt: "\<forall>L \<in> set (Ls @ [[]]). no_terminator L" using Ls by (auto simp: no_terminator_def)
  have first: "state s = FIELD_START \<or> hd nl = CR \<or> (Ls @ [[]] \<noteq> [] \<and> hd (Ls @ [[]]) \<noteq> [])"
    using ne Ls by (cases Ls) auto
  let ?s2 = "(fields_fold Ls s)\<lparr>state := after_newline nl\<rparr>"
  have lf: "lines_fold k nl (Ls @ [[]]) s = lines_fold k nl [[]] ?s2"
    unfolding lines_fold_append lines_fold_fields [OF nb] using ne by simp
  have db: "dataBuffer ?s2 \<noteq> []" using vs by (cases "field_values ''data'' Ls") (auto simp: fields_fold_sel)
  note c = onProgress_lines(1) [OF op tb st nl nt first, of k now]
  show "messages (effects (onProgress k now (lines_text nl (Ls @ [[]])) s)) =
           messages (effects s) @
           [Dispatched OPEN
              (MessageEvent
                 (if most_recent ''event'' (eventTypeBuffer s) Ls = [] then ''message''
                  else most_recent ''event'' (eventTypeBuffer s) Ls)
                 (slice_from (dataBuffer s @ concat (map ((#) LF) (field_values ''data'' Ls))) 1)
                 (most_recent ''id'' (lastEventIdBuffer s) Ls))]"
    unfolding core_eq_sel(1) [OF c] lf lines_fold_blank(1) using db op
    by (simp add: fields_fold_sel)
  show "lastEventIdBuffer (onProgress k now (lines_text nl (Ls @ [[]])) s) =
           most_recent ''id'' (lastEventIdBuffer s) Ls"
    unfolding core_eq_sel(5) [OF c] lf lines_fold_blank(2) by (simp add: fields_fold_sel)
qed

lemma line_value_subset: "set (line_value L) \<subseteq> set L"
proof (cases "dropWhile (\<lambda>c. c \<noteq> CHR '':'') L")
  case Nil
  show ?thesis unfolding line_value_def Nil by simp
next
  case (Cons c r)
  have "set (c # r) \<subseteq> set L" using set_dropWhileD [of _ "\<lambda>c. c \<noteq> CHR '':''" L] Cons by auto
  moreover have "set (line_value L) \<subseteq> set r"
    unfolding line_value_def Cons by (cases r) auto
  ultimately show ?thesis by auto
qed

lemma line_value_no_terminator: "no_terminator L \<Longrightarrow> no_terminator (line_value L)"
  using line_value_subset [of L] by (auto simp: no_terminator_def)

lemma join_values_head:
  assumes "\<forall>v \<in> set vs. no_terminator v" "vs \<noteq> []"
  shows "(join_values vs \<noteq> [] \<and> hd (join_values vs) = LF) = (hd vs = [] \<and> 2 \<le> length vs)"
proof (cases vs)
  case Nil
  then show ?thesis using assms by simp
next
  case (Cons v ws)
  have v: "v \<noteq> [] \<Longrightarrow> hd v \<noteq> LF" using assms(1) Cons
    by (cases v) (auto simp: no_terminator_def is_terminator_def)
  show ?thesis
  proof (cases ws)
    case Nil
    then show ?thesis using Cons v by auto
  next
    case (Cons w ws')
    then show ?thesis using \<open>vs = v # ws\<close> v by (cases v) auto
  qed
qed

lemma opened_sel:
  "currentState opened = OPEN" "textBuffer opened = []" "dataBuffer opened = []"
  "state opened = FIELD_START" "eventTypeBuffer opened = []" "lastEventIdBuffer opened = []"
  "effects opened = [SetTimeout 45000, TransportOpen example_url, Dispatched OPEN (OpenEvent 200 ''OK'' [])]"
  "initialRetry opened = 1000" "retry opened = 1000" "timeout opened = Some 45000"
  "lastEventId opened = []" "abortController opened"
  by (simp_all add: opened_value)

subsection \<open>The pending event id\<close>

lemma most_recent_Cons:
  "most_recent name inh (L # Ls) =
     most_recent name (if line_field L = name then line_value L else inh) Ls"
  by (simp add: most_recent_def field_values_def)

lemma lines_fold_returned_closed:
  "fst (lines_fold k nl Ls s) \<Longrightarrow> currentState (snd (lines_fold k nl Ls s)) = CLOSED"
proof (induction Ls arbitrary: s)
  case Nil
  then show ?case by simp
next
  case (Cons L Ls)
  show ?case
  proof (cases "fst (end_of_line k L (hd nl) (s\<lparr>state := FIELD_START\<rparr>))")
    case True
    then show ?thesis using end_of_line_returned_closed [OF True] by simp
  next
    case False
    then show ?thesis using Cons by simp
  qed
qed

lemma end_of_line_id:
  "lastEventIdBuffer (snd (end_of_line k L t s)) =
     (if line_field L = ''id'' then line_value L else lastEventIdBuffer s)"
proof (cases "L = []")
  case True
  then show ?thesis using flush_sel(1) [of k s]
    by (simp add: end_of_line_blank line_field_def)
next
  case False
  then show ?thesis by (simp add: end_of_line_field field_effect_buffers)
qed

lemma lines_fold_id:
  "\<not> fst (lines_fold k nl Ps s) \<Longrightarrow>
   lastEventIdBuffer (snd (lines_fold k nl Ps s)) = most_recent ''id'' (lastEventIdBuffer s) Ps"
proof (induction Ps arbitrary: s)
  case Nil
  show ?case by (simp add: most_recent_def field_values_def)
next
  case (Cons P Ps)
  let ?e = "end_of_line k P (hd nl) (s\<lparr>state := FIELD_START\<rparr>)"
  have n: "\<not> fst ?e" using Cons.prems by (auto split: if_splits)
  then have "lastEventIdBuffer (snd (lines_fold k nl (P # Ps) s)) =
        most_recent ''id'' (lastEventIdBuffer ((snd ?e)\<lparr>state := after_newline nl\<rparr>)) Ps"
    using Cons.IH [of "(snd ?e)\<lparr>state := after_newline nl\<rparr>"] Cons.prems by simp
  then show ?case using end_of_line_id [of k P "hd nl" "s\<lparr>state := FIELD_START\<rparr>"]
    by (simp add: most_recent_Cons)
qed

lemma onTimeout_inherits:
  "currentState s = WAITING \<Longrightarrow> lastEventIdBuffer (onTimeout k now s) = lastEventId s"
  by (simp add: onTimeout_def Let_def)

subsection \<open>A single field line\<close>

lemma onProgress_field_line:
  assumes op: "currentState s = OPEN" and tb: "textBuffer s = []"
    and st: "state s = FIELD_START \<or> state s = AFTER_CR"
    and nl: "newline nl" and L: "L \<noteq> []" "no_terminator L"
  shows "core (onProgress k now (L @ nl) s) =
         core ((field_effect (line_field L) (line_value L) s)\<lparr>state := after_newline nl\<rparr>)"
proof -
  have nt: "\<forall>M \<in> set [L]. no_terminator M" using L by simp
  have first: "state s = FIELD_START \<or> hd nl = CR \<or> ([L] \<noteq> [] \<and> hd [L] \<noteq> [])" using L by simp
  have nb: "\<forall>M \<in> set [L]. M \<noteq> []" using L by simp
  show ?thesis
    using onProgress_lines(1) [OF op tb st nl nt first, of k now]
    by (simp add: lines_text_def lines_fold_fields [OF nb] fields_fold_def del: lines_fold.simps)
qed

lemma retry_line:
  assumes "no_terminator v"
  shows "line_field (''retry: '' @ v) = ''retry''" "line_value (''retry: '' @ v) = v"
    "no_terminator (''retry: '' @ v)"
  using assms by (simp_all add: line_field_def line_value_def no_terminator_def is_terminator_def)

lemma onProgress_retry:
  assumes op: "currentState s = OPEN" and tb: "textBuffer s = []"
    and st: "state s = FIELD_START \<or> state s = AFTER_CR"
    and nl: "newline nl" and v: "no_terminator v"
  shows "initialRetry (onProgress k now (''retry: '' @ v @ nl) s) = parseDuration (Some v) (initialRetry s)"
    and "retry (onProgress k now (''retry: '' @ v @ nl) s) = parseDuration (Some v) (initialRetry s)"
    and "currentState (onProgress k now (''retry: '' @ v @ nl) s) = OPEN"
    and "effects (onProgress k now (''retry: '' @ v @ nl) s) = effects s"
    and "timeout (onProgress k now (''retry: '' @ v @ nl) s) = timeout s"
proof -
  have ne: "''retry: '' @ v \<noteq> []" by simp
  have c: "core (onProgress k now ((''retry: '' @ v) @ nl) s) =
       core ((field_effect ''retry'' v s)\<lparr>state := after_newline nl\<rparr>)"
    using onProgress_field_line [OF op tb st nl ne retry_line(3) [OF v], of k now]
    by (simp only: retry_line(1,2) [OF v])
  have fe: "field_effect ''retry'' v s =
            s\<lparr>initialRetry := parseDuration (Some v) (initialRetry s),
              retry := parseDuration (Some v) (initialRetry s)\<rparr>"
    by (simp add: field_effect_def Let_def)
  show "initialRetry (onProgress k now (''retry: '' @ v @ nl) s) = parseDuration (Some v) (initialRetry s)"
    using core_eq_sel(7) [OF c] by (simp add: fe)
  show "retry (onProgress k now (''retry: '' @ v @ nl) s) = parseDuration (Some v) (initialRetry s)"
    using core_eq_sel(8) [OF c] by (simp add: fe)
  show "currentState (onProgress k now (''retry: '' @ v @ nl) s) = OPEN"
    using core_eq_sel(2) [OF c] op by (simp add: fe)
  show "effects (onProgress k now (''retry: '' @ v @ nl) s) = effects s"
    using core_eq_sel(1) [OF c] by (simp add: fe)
  show "timeout (onProgress k now (''retry: '' @ v @ nl) s) = timeout s"
    using core_eq_sel(10) [OF c] by (simp add: fe)
qed

lemma parseInt_examples:
  "parseInt ''5000'' = Some 5000" "parseInt ''999999999'' = Some 999999999"
  "parseInt ''0'' = Some 0" "parseInt ''-5'' = Some (- 5)"
  by (simp_all add: parseInt_def Let_def is_space_def is_digit_def digits_value_def digit_value_def)

lemma onFinish_dispatch:
  assumes "currentState s = OPEN \<or> currentState s = CONNECTING"
  shows "\<exists>s5. onFinish k err s = dispatch k (ErrorEvent err) s5 \<and>
          effects s5 = effects s @ (if timeout s \<noteq> None then [ClearTimeout] else []) @
                       [SetTimeout (retry s)] \<and>
          currentState s5 = WAITING \<and> timeout s5 = Some (retry s) \<and>
          retry s5 = clampDuration (min (initialRetry s * 16) (retry s * 2)) \<and>
          initialRetry s5 = initialRetry s"
  using assms by (auto simp add: onFinish_def Let_def)

lemma onFinish_effects:
  assumes "currentState s = OPEN \<or> currentState s = CONNECTING"
  shows "\<exists>rest. effects (onFinish k err s) =
           effects s @ (if timeout s \<noteq> None then [ClearTimeout] else []) @
           [SetTimeout (retry s), Dispatched WAITING (ErrorEvent err)] @ rest \<and>
           (\<forall>e \<in> set rest. is_reaction e)"
    and "retry (onFinish k err s) = clampDuration (min (initialRetry s * 16) (retry s * 2))"
    and "initialRetry (onFinish k err s) = initialRetry s"
    and "currentState (onFinish k err s) = WAITING \<and> timeout (onFinish k err s) = Some (retry s) \<or>
         currentState (onFinish k err s) = CLOSED \<and> timeout (onFinish k err s) = None"
proof -
  obtain s5 where s5: "onFinish k err s = dispatch k (ErrorEvent err) s5"
    "effects s5 = effects s @ (if timeout s \<noteq> None then [ClearTimeout] else []) @
                       [SetTimeout (retry s)]"
    "currentState s5 = WAITING" "timeout s5 = Some (retry s)"
    "retry s5 = clampDuration (min (initialRetry s * 16) (retry s * 2))"
    "initialRetry s5 = initialRetry s"
    using onFinish_dispatch [OF assms] by blast
  obtain rest where r: "effects (dispatch k (ErrorEvent err) s5) =
      effects s5 @ Dispatched (currentState s5) (ErrorEvent err) # rest"
    "\<forall>e \<in> set rest. is_reaction e"
    using dispatch_effects by blast
  show "\<exists>rest. effects (onFinish k err s) =
           effects s @ (if timeout s \<noteq> None then [ClearTimeout] else []) @
           [SetTimeout (retry s), Dispatched WAITING (ErrorEvent err)] @ rest \<and>
           (\<forall>e \<in> set rest. is_reaction e)"
    using r unfolding s5(1) s5(2) s5(3) by auto
  show "retry (onFinish k err s) = clampDuration (min (initialRetry s * 16) (retry s * 2))"
    unfolding s5(1) by (simp add: dispatch_sel s5)
  show "initialRetry (onFinish k err s) = initialRetry s"
    unfolding s5(1) by (simp add: dispatch_sel s5)
  show "currentState (onFinish k err s) = WAITING \<and> timeout (onFinish k err s) = Some (retry s) \<or>
         currentState (onFinish k err s) = CLOSED \<and> timeout (onFinish k err s) = None"
    unfolding s5(1)
    using dispatch_currentState [of k "ErrorEvent err" s5]
      dispatch_timeout(1) [of k "ErrorEvent err" s5] dispatch_timeout(2) [of s5 k "ErrorEvent err"]
    by (auto simp: s5)
qed

lemma forget_sel:
  "effects (forget s) = effects s" "currentState (forget s) = currentState s"
  "lastEventId (forget s) = lastEventId s" "initialRetry (forget s) = initialRetry s"
  "retry (forget s) = retry s" "heartbeatTimeout (forget s) = heartbeatTimeout s"
  "timeout (forget s) = timeout s" "dataBuffer (forget s) = dataBuffer s"
  "eventTypeBuffer (forget s) = eventTypeBuffer s"
  "lastEventIdBuffer (forget s) = lastEventIdBuffer s" "state (forget s) = state s"
  by (simp_all add: forget_def core_def activity_sel offs_sel)

subsection \<open>Runs: every delivery starts in the Open state\<close>





























subsection \<open>The watchdog\<close>




lemma step_shape:
  obtains (swallow) "step k chunk p s = (False, s\<lparr>state := FIELD_START\<rparr>)"
  | (blank) "step k chunk p s = end_of_line k [] (chunk ! p) (s\<lparr>state := FIELD_START\<rparr>)"
  | (field) x where "step k chunk p s = (False, (field_line chunk p s)\<lparr>state := x\<rparr>)"
  | (char) "step k chunk p s = (False, field_char (chunk ! p) p s)"
  | (char_after_cr) "step k chunk p s = (False, field_char (chunk ! p) p (s\<lparr>state := FIELD_START\<rparr>))"
proof (cases "state s = AFTER_CR \<and> chunk ! p = LF")
  case True
  then show ?thesis using swallow by (simp add: step_swallow)
next
  case sw: False
  show ?thesis
  proof (cases "(chunk ! p = LF \<or> chunk ! p = CR) \<and>
              (state s = FIELD_START \<or> (state s = AFTER_CR \<and> chunk ! p = CR))")
    case True
    then show ?thesis using blank step_dispatch_point [of chunk p s k] by blast
  next
    case nd: False
    show ?thesis
    proof (cases "is_terminator (chunk ! p)")
      case True
      then have f: "state s \<noteq> FIELD_START" "state s \<noteq> AFTER_CR"
        using nd sw by (auto simp: is_terminator_def)
      show ?thesis using field step_field [OF True f, of k] by blast
    next
      case False
      show ?thesis
      proof (cases "state s = AFTER_CR")
        case True
        then have "step k chunk p s = step k chunk p (s\<lparr>state := FIELD_START\<rparr>)"
          using sw by (simp add: step_after_cr)
        then show ?thesis
          using step_char [OF False, of "s\<lparr>state := FIELD_START\<rparr>" k] char_after_cr by simp
      next
        case n: False
        show ?thesis using step_char [OF False n, of k] char by simp
      qed
    qed
  qed
qed






















subsection \<open>The early return\<close>

lemma flush_kept:
  assumes "fst (flush k s)"
  shows "dataBuffer (snd (flush k s)) = dataBuffer s"
    and "eventTypeBuffer (snd (flush k s)) =
           (if eventTypeBuffer s = [] then ''message'' else eventTypeBuffer s)"
  using assms by (simp_all add: flush_def Let_def dispatch_sel split: if_splits)

lemma step_returned_kept:
  assumes "fst (step k chunk p s)"
  shows "dataBuffer (snd (step k chunk p s)) = dataBuffer s"
    and "eventTypeBuffer (snd (step k chunk p s)) =
           (if eventTypeBuffer s = [] then ''message'' else eventTypeBuffer s)"
proof -
  let ?s = "s\<lparr>state := FIELD_START\<rparr>"
  have "step k chunk p s = flush k ?s"
  proof (cases rule: step_shape [of k chunk p s])
    case blank
    have "fst (end_of_line k [] (chunk ! p) ?s)" using assms blank by simp
    then have "fst (flush k ?s)" by (simp add: end_of_line_blank split: if_splits)
    then show ?thesis using blank by (simp add: end_of_line_blank)
  qed (use assms in simp_all)
  then have f: "fst (flush k ?s)" "snd (step k chunk p s) = snd (flush k ?s)"
    using assms by simp_all
  show "dataBuffer (snd (step k chunk p s)) = dataBuffer s"
    unfolding f(2) using flush_kept(1) [OF f(1)] by simp
  show "eventTypeBuffer (snd (step k chunk p s)) =
           (if eventTypeBuffer s = [] then ''message'' else eventTypeBuffer s)"
    unfolding f(2) using flush_kept(2) [OF f(1)] by simp
qed

subsection \<open>The line state between two calls\<close>

lemma onFinish_state: "state (onFinish k err s) = state s"
proof (cases "currentState s = OPEN \<or> currentState s = CONNECTING")
  case False
  then show ?thesis by (simp add: onFinish_def)
next
  case True
  then have "\<exists>s5. onFinish k err s = dispatch k (ErrorEvent err) s5 \<and> state s5 = state s"
    by (auto simp add: onFinish_def Let_def)
  then show ?thesis by (auto simp: dispatch_sel)
qed

lemma transport_start_state:
  "state (transport_start g k now status statusText contentType hs s) = state s"
proof (cases "onStart g k now status statusText contentType hs s")
  case (Inl e)
  then show ?thesis by (simp add: transport_start_def onFinish_state)
next
  case (Inr s')
  then have "state s' = state s"
    by (auto simp add: onStart_def Let_def dispatch_sel split: if_splits)
  then show ?thesis using Inr by (simp add: transport_start_def)
qed

lemma onTimeout_state:
  "state (onTimeout k now s) = (if currentState s = WAITING then FIELD_START else state s)"
proof (cases "currentState s = WAITING")
  case True
  then show ?thesis by (simp add: onTimeout_def Let_def)
next
  case w: False
  show ?thesis
  proof (cases "falsy (wasActivity s) \<and> abortController s")
    case True
    let ?s1 = "onFinish k (Some (NoActivity (heartbeatTimeout s)
                 (if currentState s = CONNECTING then None else Some (textLength s))))
                 (s\<lparr>timeout := None\<rparr>)"
    have "onTimeout k now s =
            (if abortController ?s1
             then ?s1\<lparr>effects := effects ?s1 @ [TransportAbort], abortController := False\<rparr>
             else ?s1)"
      using w True by (simp add: onTimeout_def Let_def)
    then show ?thesis using w by (simp add: onFinish_state)
  next
    case False
    then show ?thesis using w by (auto simp add: onTimeout_def Let_def)
  qed
qed

lemma handle_state:
  assumes "state s = FIELD_START \<or> state s = AFTER_CR"
  shows "state (handle g k x s) = FIELD_START \<or> state (handle g k x s) = AFTER_CR"
proof -
  obtain now sg where x: "x = (now, sg)" by (cases x)
  show ?thesis unfolding x using assms
    by (cases sg)
      (simp_all add: transport_start_state onProgress_state onFinish_state onTimeout_state close_sel)
qed

lemma run_state:
  "state s = FIELD_START \<or> state s = AFTER_CR \<Longrightarrow>
   state (run g k signals s) = FIELD_START \<or> state (run g k signals s) = AFTER_CR"
proof (induction signals arbitrary: s)
  case Nil
  then show ?case by (simp add: run_def)
next
  case (Cons x xs)
  have "run g k (x # xs) s = run g k xs (handle g k x s)" by (simp add: run_def)
  then show ?case using Cons(1) [OF handle_state [OF Cons(2), of g k x]] by simp
qed

lemma reachable_state:
  "state (run g k signals (construct k now u)) = FIELD_START \<or>
   state (run g k signals (construct k now u)) = AFTER_CR"
  by (rule run_state) (simp add: construct_def onTimeout_state initial_def)

section \<open>The claims\<close>

text \<open>
  C2 (the code at the failing input). A start signal with status 404 in the Connecting
  state. On a host with a global \<open>close\<close> the connection calls that function and not its
  own close: the transport is not aborted, the state stays Connecting with the watchdog
  of 45000 ms pending, and no retry timer is armed; the error notification is dispatched in
  that state. On a host without one, the ReferenceError ends the attempt before any
  notification carrying the status is made: the transport hands the error to \<open>onFinish\<close>,
  which arms the retry timer, and the transport is still not aborted.
\<close>

theorem onStart_rejected_not_aborted:
  "onStart True quiet 1 404 ''Not Found'' (Some ''text/html'') [] connecting =
     Inr (connecting\<lparr>effects := [SetTimeout 45000, TransportOpen example_url, GlobalClose,
            Dispatched CONNECTING (ConnectionError 404 ''Not Found'' [])]\<rparr>) \<and>
   currentState connecting = CONNECTING \<and> timeout connecting = Some 45000 \<and>
   abortController connecting \<and>
   onStart False quiet 1 404 ''Not Found'' (Some ''text/html'') [] connecting =
     Inl (ReferenceError ''close'') \<and>
   effects (transport_start False quiet 1 404 ''Not Found'' (Some ''text/html'') [] connecting) =
     [SetTimeout 45000, TransportOpen example_url, ClearTimeout, SetTimeout 1000,
      Dispatched WAITING (ErrorEvent (Some (ReferenceError ''close'')))] \<and>
   abortController (transport_start False quiet 1 404 ''Not Found'' (Some ''text/html'') [] connecting)"
  by code_simp

text \<open>
  C8 (the code at the failing input). A base URL whose query starts with \<open>&\<close>: the first
  match of the pattern is empty, the search resumes at index 1, and the parameter that
  follows the leading \<open>&\<close> is never examined. The old \<open>lastEventId\<close> stays and the new one is
  appended: the parameter occurs twice.
\<close>

theorem requestURL_leading_ampersand:
  "requestURL ''http://example.org/events?&lastEventId=1'' ''42'' =
     ''http://example.org/events?&lastEventId=1&lastEventId=42''"
  by code_simp


text \<open>
  C4 (as stated, refuted). With a listener that calls \<open>close()\<close> while the record is
  delivered, the loop returns before the two assignments that clear the buffers: after the
  blank line \<open>dataBuffer\<close> still holds the data and \<open>eventTypeBuffer\<close> holds the default type.
\<close>

theorem blank_line_close_counterexample:
  "dataBuffer (onProgress closing 6 (''data: x'' @ [LF, LF]) opened) = LF # ''x'' \<and>
   eventTypeBuffer (onProgress closing 6 (''data: x'' @ [LF, LF]) opened) = ''message''"
  by code_simp

text \<open>
  C4 (amended). At every blank line, that is an iteration of the loop on a line terminator
  in state \<open>FIELD_START\<close> (a line feed right after a carriage return is no line), exactly one
  Event Record is emitted if and only if \<open>dataBuffer\<close> is non-empty, with the pending event
  type (\<open>message\<close> when unset), \<open>dataBuffer\<close> less its first character and the pending event
  id; \<open>lastEventId\<close> becomes the pending event id exactly when a record is emitted, and no
  other iteration changes it or emits a record; \<open>dataBuffer\<close> and the pending event type
  are cleared whether or not a record was emitted, unless the connection was closed during
  the delivery of the record: then the loop returns at once, \<open>dataBuffer\<close> keeps its value and
  the pending event type is the type of the record.
\<close>

theorem blank_line_flush:
  assumes "currentState s = OPEN"
  shows "((chunk ! p = LF \<or> chunk ! p = CR) \<and>
          (state s = FIELD_START \<or> (state s = AFTER_CR \<and> chunk ! p = CR)) \<longrightarrow>
            messages (effects (snd (step k chunk p s))) =
              messages (effects s) @
              (if dataBuffer s \<noteq> []
               then [Dispatched OPEN
                       (MessageEvent (if eventTypeBuffer s = [] then ''message'' else eventTypeBuffer s)
                          (slice_from (dataBuffer s) 1) (lastEventIdBuffer s))]
               else []) \<and>
            lastEventId (snd (step k chunk p s)) =
              (if dataBuffer s \<noteq> [] then lastEventIdBuffer s else lastEventId s) \<and>
            fst (step k chunk p s) =
              (dataBuffer s \<noteq> [] \<and> currentState (snd (step k chunk p s)) = CLOSED) \<and>
            (\<not> fst (step k chunk p s) \<longrightarrow>
               dataBuffer (snd (step k chunk p s)) = [] \<and>
               eventTypeBuffer (snd (step k chunk p s)) = []) \<and>
            (fst (step k chunk p s) \<longrightarrow>
               dataBuffer (snd (step k chunk p s)) = dataBuffer s \<and>
               eventTypeBuffer (snd (step k chunk p s)) =
                 (if eventTypeBuffer s = [] then ''message'' else eventTypeBuffer s))) \<and>
         (\<not> ((chunk ! p = LF \<or> chunk ! p = CR) \<and>
             (state s = FIELD_START \<or> (state s = AFTER_CR \<and> chunk ! p = CR))) \<longrightarrow>
            lastEventId (snd (step k chunk p s)) = lastEventId s \<and>
            messages (effects (snd (step k chunk p s))) = messages (effects s))"
proof (intro conjI impI)
  assume b: "(chunk ! p = LF \<or> chunk ! p = CR) \<and>
          (state s = FIELD_START \<or> (state s = AFTER_CR \<and> chunk ! p = CR))"
  let ?s = "s\<lparr>state := FIELD_START\<rparr>"
  have st: "step k chunk p s = end_of_line k [] (chunk ! p) ?s"
    using b by (intro step_dispatch_point) auto
  have e: "end_of_line k [] (chunk ! p) ?s =
     (if fst (flush k ?s) then flush k ?s
      else (False, (snd (flush k ?s))\<lparr>state := (if chunk ! p = CR then AFTER_CR else FIELD_START)\<rparr>))"
    by (rule end_of_line_blank)
  have fs: "fst (step k chunk p s) = fst (flush k ?s)" unfolding st e by simp
  show "messages (effects (snd (step k chunk p s))) =
              messages (effects s) @
              (if dataBuffer s \<noteq> []
               then [Dispatched OPEN
                       (MessageEvent (if eventTypeBuffer s = [] then ''message'' else eventTypeBuffer s)
                          (slice_from (dataBuffer s) 1) (lastEventIdBuffer s))]
               else [])"
    unfolding st e using flush_message [of k ?s] assms by simp
  show "lastEventId (snd (step k chunk p s)) =
              (if dataBuffer s \<noteq> [] then lastEventIdBuffer s else lastEventId s)"
    unfolding st e using flush_sel(2) [of k ?s] by simp
  show "fst (step k chunk p s) =
              (dataBuffer s \<noteq> [] \<and> currentState (snd (step k chunk p s)) = CLOSED)"
  proof -
    have cs: "currentState (snd (step k chunk p s)) = currentState (snd (flush k ?s))"
      unfolding st e by simp
    have fr: "fst (flush k ?s) = (currentState (snd (flush k ?s)) = CLOSED)"
      using flush_returned [of ?s k] assms by simp
    have fd: "dataBuffer s = [] \<Longrightarrow> \<not> fst (flush k ?s)" by (simp add: flush_def)
    show ?thesis unfolding fs cs using fr fd by auto
  qed
  assume "\<not> fst (step k chunk p s)"
  then have n: "\<not> fst (flush k ?s)" using fs by simp
  show "dataBuffer (snd (step k chunk p s)) = []" "eventTypeBuffer (snd (step k chunk p s)) = []"
    unfolding st e using n flush_cleared [OF n] by simp_all
next
  assume f: "fst (step k chunk p s)"
  show "dataBuffer (snd (step k chunk p s)) = dataBuffer s"
    by (rule step_returned_kept(1) [OF f])
  show "eventTypeBuffer (snd (step k chunk p s)) =
                 (if eventTypeBuffer s = [] then ''message'' else eventTypeBuffer s)"
    by (rule step_returned_kept(2) [OF f])
next
  assume n: "\<not> ((chunk ! p = LF \<or> chunk ! p = CR) \<and>
             (state s = FIELD_START \<or> (state s = AFTER_CR \<and> chunk ! p = CR)))"
  show "lastEventId (snd (step k chunk p s)) = lastEventId s"
    "messages (effects (snd (step k chunk p s))) = messages (effects s)"
    using step_elsewhere [OF n, of k] by simp_all
qed

theorem blank_line_flush_witness:
  "currentState pending_record = OPEN \<and>
   messages (effects (snd (step quiet [LF] 0 pending_record))) =
     [Dispatched OPEN (MessageEvent ''message'' ''x'' [])] \<and>
   lastEventId (snd (step quiet [LF] 0 pending_record)) = [] \<and>
   \<not> fst (step quiet [LF] 0 pending_record) \<and>
   dataBuffer (snd (step quiet [LF] 0 pending_record)) = [] \<and>
   eventTypeBuffer (snd (step quiet [LF] 0 pending_record)) = []"
proof -
  have o: "currentState (snd (step quiet [LF] 0 pending_record)) = OPEN"
    by code_simp
  have v: "currentState pending_record = OPEN" "dataBuffer pending_record = LF # ''x''"
    "eventTypeBuffer pending_record = []" "lastEventIdBuffer pending_record = []"
    "lastEventId pending_record = []" "state pending_record = FIELD_START"
    "messages (effects pending_record) = []"
    by (simp_all add: pending_record_value messages_def)
  show ?thesis
    using blank_line_flush [of pending_record "[LF]" 0 quiet] o
    by (simp add: v slice_from_def slice_def)
qed

text \<open>
  C5 (as stated, refuted). A record whose first \<open>data\<close> line has the empty value and whose
  second has the value \<open>x\<close>: the payload is a newline followed by \<open>x\<close>, so it does start with
  a newline.
\<close>

theorem data_lines_leading_newline_counterexample:
  "messages (effects (onProgress quiet 6 (''data'' @ [LF] @ ''data: x'' @ [LF, LF]) opened)) =
     [Dispatched OPEN (MessageEvent ''message'' (LF # ''x'') [])]"
  by code_simp

text \<open>
  C5 (amended). For every record whose \<open>data\<close> lines have the values \<open>v1, ..., vk\<close> with
  \<open>k \<ge> 1\<close>, each \<open>data\<close> line appends a newline followed by its value to \<open>dataBuffer\<close>, and
  the delivered record's payload is \<open>v1\n...\nvk\<close>: the values joined by newlines, the first
  joining newline dropped. The payload starts with a newline exactly when the first value
  is empty and there are at least two \<open>data\<close> lines. (The record is a list of non-blank
  lines and a blank line, all ended by the same terminator, read in one call at the start
  of a record.)
\<close>

theorem data_lines_joined:
  assumes "currentState s = OPEN" and "textBuffer s = []" and "dataBuffer s = []"
    and "state s = FIELD_START \<or> state s = AFTER_CR"
    and "newline nl" and "\<forall>L \<in> set Ls. L \<noteq> [] \<and> no_terminator L"
    and "field_values ''data'' Ls \<noteq> []"
  shows "messages (effects (onProgress k now (lines_text nl (Ls @ [[]])) s)) =
           messages (effects s) @
           [Dispatched OPEN
              (MessageEvent
                 (if most_recent ''event'' (eventTypeBuffer s) Ls = [] then ''message''
                  else most_recent ''event'' (eventTypeBuffer s) Ls)
                 (join_values (field_values ''data'' Ls))
                 (most_recent ''id'' (lastEventIdBuffer s) Ls))] \<and>
         ((join_values (field_values ''data'' Ls) \<noteq> [] \<and>
           hd (join_values (field_values ''data'' Ls)) = LF) =
          (hd (field_values ''data'' Ls) = [] \<and> 2 \<le> length (field_values ''data'' Ls))) \<and>
         dataBuffer (field_effect ''data'' v s') = dataBuffer s' @ LF # v"
proof -
  have nt: "\<forall>v \<in> set (field_values ''data'' Ls). no_terminator v"
    using assms(6) by (auto simp: field_values_def line_value_no_terminator)
  show ?thesis
    using record_delivery(1) [OF assms(1,2,4,5,6,7), of k now] join_values_head [OF nt assms(7)]
    by (simp add: assms(3) join_values_concat [OF assms(7)] field_effect_buffers)
qed

theorem data_lines_joined_witness:
  "currentState opened = OPEN \<and> textBuffer opened = [] \<and> dataBuffer opened = [] \<and>
   (state opened = FIELD_START \<or> state opened = AFTER_CR) \<and> newline [CR, LF] \<and>
   list_all (\<lambda>L. L \<noteq> [] \<and> no_terminator L) [''data: a'', ''event: e'', ''data:b''] \<and>
   field_values ''data'' [''data: a'', ''event: e'', ''data:b''] \<noteq> [] \<and>
   messages (effects (onProgress quiet 6
      (lines_text [CR, LF] ([''data: a'', ''event: e'', ''data:b''] @ [[]])) opened)) =
     [Dispatched OPEN (MessageEvent ''e'' (''a'' @ LF # ''b'') [])]"
proof -
  have h: "newline [CR, LF]"
    "\<forall>L \<in> set [''data: a'', ''event: e'', ''data:b'']. L \<noteq> [] \<and> no_terminator L"
    "field_values ''data'' [''data: a'', ''event: e'', ''data:b''] \<noteq> []"
    by (simp_all add: newline_def no_terminator_def is_terminator_def field_values_def line_field_def)
  have v: "field_values ''data'' [''data: a'', ''event: e'', ''data:b''] = [''a'', ''b'']"
    "most_recent ''event'' [] [''data: a'', ''event: e'', ''data:b''] = ''e''"
    "most_recent ''id'' [] [''data: a'', ''event: e'', ''data:b''] = []"
    by (simp_all add: most_recent_def field_values_def line_field_def line_value_def)
  show ?thesis
    using data_lines_joined [OF opened_sel(1,2,3) disjI1 [OF opened_sel(4)] h, of quiet 6] h
    by (simp add: opened_sel v messages_def)
qed

text \<open>
  C10. Within one connection attempt the pending event id is not cleared when a record is
  flushed. The attempt starts with the pending id set to the inherited \<open>lastEventId\<close>
  (\<open>onTimeout\<close>); after any complete lines \<open>Ps\<close> that left the connection open, a record
  with \<open>data\<close> lines and no \<open>id\<close> line is delivered with the value of the most recent \<open>id\<close>
  line of \<open>Ps\<close>, or with the inherited id when \<open>Ps\<close> has none; and the pending id still
  has that value after the flush.
\<close>

theorem pending_id_survives_flush:
  assumes "currentState s = OPEN" and "textBuffer s = []" and "state s = FIELD_START"
    and "newline nl" and "\<forall>P \<in> set Ps. no_terminator P"
    and "\<forall>L \<in> set Ls. L \<noteq> [] \<and> no_terminator L"
    and "field_values ''data'' Ls \<noteq> []" and "field_values ''id'' Ls = []"
    and "currentState (onProgress k t1 (lines_text nl Ps) s) = OPEN"
  shows "(\<exists>ty d.
           messages (effects (onProgress k t2 (lines_text nl (Ls @ [[]]))
                                (onProgress k t1 (lines_text nl Ps) s))) =
           messages (effects (onProgress k t1 (lines_text nl Ps) s)) @
           [Dispatched OPEN (MessageEvent ty d (most_recent ''id'' (lastEventIdBuffer s) Ps))]) \<and>
         lastEventIdBuffer (onProgress k t2 (lines_text nl (Ls @ [[]]))
                              (onProgress k t1 (lines_text nl Ps) s)) =
           most_recent ''id'' (lastEventIdBuffer s) Ps \<and>
         (currentState s0 = WAITING \<longrightarrow> lastEventIdBuffer (onTimeout k' now s0) = lastEventId s0)"
proof -
  let ?s1 = "onProgress k t1 (lines_text nl Ps) s"
  have st: "state s = FIELD_START \<or> state s = AFTER_CR" using assms(3) by simp
  have first: "state s = FIELD_START \<or> hd nl = CR \<or> (Ps \<noteq> [] \<and> hd Ps \<noteq> [])"
    using assms(3) by simp
  note c = onProgress_lines [OF assms(1,2) st assms(4,5) first, of k t1]
  have "currentState (snd (lines_fold k nl Ps s)) = OPEN"
    using core_eq_sel(2) [OF c(1)] assms(9) by simp
  then have nr: "\<not> fst (lines_fold k nl Ps s)"
    using lines_fold_returned_closed [of k nl Ps s] by auto
  have id1: "lastEventIdBuffer ?s1 = most_recent ''id'' (lastEventIdBuffer s) Ps"
    using core_eq_sel(5) [OF c(1)] lines_fold_id [OF nr] by simp
  have st1: "state ?s1 = FIELD_START \<or> state ?s1 = AFTER_CR"
    by (rule onProgress_state [OF st])
  note r = record_delivery [OF assms(9) c(2) st1 assms(4,6,7), of k t2]
  show ?thesis
    using r by (simp add: most_recent_none [OF assms(8)] id1 onTimeout_inherits)
qed

theorem pending_id_survives_flush_witness:
  "currentState opened = OPEN \<and> textBuffer opened = [] \<and> state opened = FIELD_START \<and>
   newline [LF] \<and> list_all no_terminator [''id: 42'', ''data: a'', []] \<and>
   list_all (\<lambda>L. L \<noteq> [] \<and> no_terminator L) [''data: b''] \<and>
   field_values ''data'' [''data: b''] \<noteq> [] \<and> field_values ''id'' [''data: b''] = [] \<and>
   currentState (onProgress quiet 6 (lines_text [LF] [''id: 42'', ''data: a'', []]) opened) = OPEN \<and>
   (\<exists>ty d.
      messages (effects (onProgress quiet 7 (lines_text [LF] ([''data: b''] @ [[]]))
                          (onProgress quiet 6 (lines_text [LF] [''id: 42'', ''data: a'', []]) opened))) =
      messages (effects (onProgress quiet 6 (lines_text [LF] [''id: 42'', ''data: a'', []]) opened)) @
      [Dispatched OPEN (MessageEvent ty d ''42'')])"
proof -
  have h: "newline [LF]" "\<forall>P \<in> set [''id: 42'', ''data: a'', []]. no_terminator P"
    "\<forall>L \<in> set [''data: b'']. L \<noteq> [] \<and> no_terminator L"
    "field_values ''data'' [''data: b''] \<noteq> []" "field_values ''id'' [''data: b''] = []"
    by (simp_all add: newline_def no_terminator_def is_terminator_def field_values_def line_field_def)
  have o: "currentState (onProgress quiet 6 (lines_text [LF] [''id: 42'', ''data: a'', []]) opened) = OPEN"
    by code_simp
  have m: "most_recent ''id'' [] [''id: 42'', ''data: a'', []] = ''42''"
    by (simp add: most_recent_def field_values_def line_field_def line_value_def)
  show ?thesis
    using pending_id_survives_flush [OF opened_sel(1,2,4) h o, where ?t2.0 = 7] h o
    by (simp add: opened_sel m)
qed

text \<open>
  C6. On every transport finish while the state is Open or Connecting, the pending timer
  is cleared, the retry timer is armed with the current retry interval, and only then the
  interval becomes \<open>clamp(min(16 * initialRetry, 2 * retry), 1000, 18000000)\<close>; the error
  notification follows, and after it nothing but what its delivery does (the \<open>onerror\<close>
  handler, a \<open>close()\<close> called there, which cancels the timer again): the timer stays armed
  with the interval unless the connection was closed. In particular, after a line
  \<open>retry: 5000\<close> read in the Open state, the next reconnect is scheduled at 5000 ms and the
  interval kept for the following failure is 10000 ms.
\<close>

theorem onFinish_backoff:
  assumes "currentState s = OPEN \<or> currentState s = CONNECTING"
  shows "(\<exists>rest. effects (onFinish k err s) =
            effects s @ (if timeout s \<noteq> None then [ClearTimeout] else []) @
            [SetTimeout (retry s), Dispatched WAITING (ErrorEvent err)] @ rest \<and>
            (\<forall>e \<in> set rest. is_reaction e)) \<and>
         retry (onFinish k err s) =
           min (max (min (16 * initialRetry s) (2 * retry s)) 1000) 18000000 \<and>
         (currentState (onFinish k err s) = WAITING \<and> timeout (onFinish k err s) = Some (retry s) \<or>
          currentState (onFinish k err s) = CLOSED \<and> timeout (onFinish k err s) = None) \<and>
         (currentState s = OPEN \<and> textBuffer s = [] \<and>
          (state s = FIELD_START \<or> state s = AFTER_CR) \<and> newline nl \<longrightarrow>
            (\<exists>rest. effects (onFinish k err (onProgress k now (''retry: 5000'' @ nl) s)) =
               effects s @ (if timeout s \<noteq> None then [ClearTimeout] else []) @
               [SetTimeout 5000, Dispatched WAITING (ErrorEvent err)] @ rest \<and>
               (\<forall>e \<in> set rest. is_reaction e)) \<and>
            retry (onFinish k err (onProgress k now (''retry: 5000'' @ nl) s)) = 10000)"
proof (intro conjI impI)
  show "\<exists>rest. effects (onFinish k err s) =
            effects s @ (if timeout s \<noteq> None then [ClearTimeout] else []) @
            [SetTimeout (retry s), Dispatched WAITING (ErrorEvent err)] @ rest \<and>
            (\<forall>e \<in> set rest. is_reaction e)"
    by (rule onFinish_effects(1) [OF assms])
  show "retry (onFinish k err s) = min (max (min (16 * initialRetry s) (2 * retry s)) 1000) 18000000"
    using onFinish_effects(2) [OF assms, of k err]
    by (simp add: mult.commute clampDuration_def MINIMUM_DURATION_def MAXIMUM_DURATION_def)
  show "currentState (onFinish k err s) = WAITING \<and> timeout (onFinish k err s) = Some (retry s) \<or>
          currentState (onFinish k err s) = CLOSED \<and> timeout (onFinish k err s) = None"
    by (rule onFinish_effects(4) [OF assms])
next
  assume a: "currentState s = OPEN \<and> textBuffer s = [] \<and>
          (state s = FIELD_START \<or> state s = AFTER_CR) \<and> newline nl"
  let ?s1 = "onProgress k now (''retry: 5000'' @ nl) s"
  have v: "no_terminator ''5000''" by (simp add: no_terminator_def is_terminator_def)
  have p: "parseDuration (Some ''5000'') (initialRetry s) = 5000"
    by (simp add: parseDuration_def parseInt_examples clampDuration_def MINIMUM_DURATION_def
          MAXIMUM_DURATION_def)
  have r: "initialRetry ?s1 = 5000" "retry ?s1 = 5000" "currentState ?s1 = OPEN"
     "effects ?s1 = effects s" "timeout ?s1 = timeout s"
    using a onProgress_retry [of s nl "''5000''" k now] v p by simp_all
  have o: "currentState ?s1 = OPEN \<or> currentState ?s1 = CONNECTING" using r(3) by simp
  show "\<exists>rest. effects (onFinish k err ?s1) =
               effects s @ (if timeout s \<noteq> None then [ClearTimeout] else []) @
               [SetTimeout 5000, Dispatched WAITING (ErrorEvent err)] @ rest \<and>
               (\<forall>e \<in> set rest. is_reaction e)"
    using onFinish_effects(1) [OF o, of k err] unfolding r .
  show "retry (onFinish k err ?s1) = 10000"
    unfolding onFinish_effects(2) [OF o] r
    by (simp add: clampDuration_def MINIMUM_DURATION_def MAXIMUM_DURATION_def)
qed

theorem onFinish_backoff_witness:
  "(currentState opened = OPEN \<or> currentState opened = CONNECTING) \<and>
   effects (onFinish quiet None opened) =
     effects opened @ [ClearTimeout, SetTimeout 1000, Dispatched WAITING (ErrorEvent None)] \<and>
   retry (onFinish quiet None opened) = 2000 \<and>
   timeout (onFinish quiet None opened) = Some 1000 \<and>
   retry (onFinish quiet None (onProgress quiet 6 (''retry: 5000'' @ [LF]) opened)) = 10000"
proof -
  have e: "effects (onFinish quiet None opened) =
     effects opened @ [ClearTimeout, SetTimeout 1000, Dispatched WAITING (ErrorEvent None)]"
    "currentState (onFinish quiet None opened) = WAITING"
    by code_simp+
  show ?thesis
    using onFinish_backoff [of opened quiet None "[LF]" 6] e
    by (simp add: opened_sel newline_def clampDuration_def MINIMUM_DURATION_def
          MAXIMUM_DURATION_def)
qed

text \<open>
  C7 (as stated, refuted). After \<open>retry: 5000\<close> the stored initial retry is 5000; a following
  \<open>retry: 0\<close> is not ignored: it sets the initial retry and the current interval to 1000.
\<close>

theorem retry_zero_counterexample:
  "initialRetry (onProgress quiet 6 (''retry: 5000'' @ [LF]) opened) = 5000 \<and>
   initialRetry (onProgress quiet 7 (''retry: 0'' @ [LF])
                   (onProgress quiet 6 (''retry: 5000'' @ [LF]) opened)) = 1000 \<and>
   retry (onProgress quiet 7 (''retry: 0'' @ [LF])
            (onProgress quiet 6 (''retry: 5000'' @ [LF]) opened)) = 1000"
  by code_simp

text \<open>
  C7 (amended). For every \<open>retry\<close> control field whose value is 0 or a negative integer (as
  \<open>parseInt\<close> reads it), the value is clamped: both the stored initial retry and the current
  retry interval are set to the lower bound 1000; for a \<open>retry\<close> field with value 999999999,
  both are set to the upper bound 18000000.
\<close>

theorem retry_field_clamped:
  assumes "currentState s = OPEN" and "textBuffer s = []"
    and "state s = FIELD_START \<or> state s = AFTER_CR"
    and "newline nl" and "no_terminator v"
  shows "(parseInt v = Some n \<and> n \<le> 0 \<longrightarrow>
            initialRetry (onProgress k now (''retry: '' @ v @ nl) s) = 1000 \<and>
            retry (onProgress k now (''retry: '' @ v @ nl) s) = 1000) \<and>
         initialRetry (onProgress k now (''retry: 999999999'' @ nl) s) = 18000000 \<and>
         retry (onProgress k now (''retry: 999999999'' @ nl) s) = 18000000"
proof (intro conjI impI)
  assume p: "parseInt v = Some n \<and> n \<le> 0"
  then have "parseDuration (Some v) (initialRetry s) = 1000"
    by (simp add: parseDuration_def clampDuration_def MINIMUM_DURATION_def MAXIMUM_DURATION_def)
  then show "initialRetry (onProgress k now (''retry: '' @ v @ nl) s) = 1000"
    "retry (onProgress k now (''retry: '' @ v @ nl) s) = 1000"
    using onProgress_retry(1,2) [OF assms, of k now] by simp_all
next
  have v: "no_terminator ''999999999''" by (simp add: no_terminator_def is_terminator_def)
  have "parseDuration (Some ''999999999'') (initialRetry s) = 18000000"
    by (simp add: parseDuration_def parseInt_examples clampDuration_def MINIMUM_DURATION_def
          MAXIMUM_DURATION_def)
  then show "initialRetry (onProgress k now (''retry: 999999999'' @ nl) s) = 18000000"
    "retry (onProgress k now (''retry: 999999999'' @ nl) s) = 18000000"
    using onProgress_retry(1,2) [OF assms(1-4) v, of k now] by simp_all
qed

theorem retry_field_clamped_witness:
  "currentState opened = OPEN \<and> textBuffer opened = [] \<and>
   (state opened = FIELD_START \<or> state opened = AFTER_CR) \<and> newline [LF] \<and>
   no_terminator ''-5'' \<and> parseInt ''-5'' = Some (- 5) \<and> (- 5 :: int) \<le> 0 \<and>
   initialRetry (onProgress quiet 6 (''retry: '' @ ''-5'' @ [LF]) opened) = 1000 \<and>
   retry (onProgress quiet 6 (''retry: '' @ ''-5'' @ [LF]) opened) = 1000 \<and>
   initialRetry (onProgress quiet 6 (''retry: 999999999'' @ [LF]) opened) = 18000000"
proof -
  have h: "newline [LF]" "no_terminator ''-5''"
    by (simp_all add: newline_def no_terminator_def is_terminator_def)
  show ?thesis
    using retry_field_clamped [OF opened_sel(1,2) disjI1 [OF opened_sel(4)] h, of "- 5" quiet 6] h
    by (simp add: opened_sel parseInt_examples)
qed

text \<open>
  C1. For every text and every way of cutting it into chunks, each chunk arriving at its own
  time, feeding the chunks one by one to \<open>onProgress\<close> leaves the connection in the same
  state as feeding the whole text in one call: the same effects in the same order (so the
  same Event Records), the same \<open>lastEventId\<close>, retry and heartbeat values, timer and
  buffers. The two states may differ only in the time stamp of the last activity and in
  the two offsets into the chunk, which no later call reads, and, once a listener has
  closed the connection, in the unread tail and the character count. The hypothesis on the
  line state holds between any two calls, that is in every state a run of the connection
  reaches from its construction: \<open>onTimeout\<close> sets the line state to \<open>FIELD_START\<close> and
  \<open>onProgress\<close> leaves it at \<open>FIELD_START\<close> or \<open>AFTER_CR\<close>.
\<close>

theorem chunking_invisible:
  assumes "state s = FIELD_START \<or> state s = AFTER_CR"
  shows "forget (feed k timed_chunks s) =
           forget (onProgress k now (concat (map snd timed_chunks)) s) \<and>
         effects (feed k timed_chunks s) =
           effects (onProgress k now (concat (map snd timed_chunks)) s) \<and>
         lastEventId (feed k timed_chunks s) =
           lastEventId (onProgress k now (concat (map snd timed_chunks)) s) \<and>
         initialRetry (feed k timed_chunks s) =
           initialRetry (onProgress k now (concat (map snd timed_chunks)) s) \<and>
         retry (feed k timed_chunks s) =
           retry (onProgress k now (concat (map snd timed_chunks)) s) \<and>
         heartbeatTimeout (feed k timed_chunks s) =
           heartbeatTimeout (onProgress k now (concat (map snd timed_chunks)) s) \<and>
         timeout (feed k timed_chunks s) =
           timeout (onProgress k now (concat (map snd timed_chunks)) s) \<and>
         currentState (feed k timed_chunks s) =
           currentState (onProgress k now (concat (map snd timed_chunks)) s) \<and>
         (state (feed k timed_chunks s) = FIELD_START \<or> state (feed k timed_chunks s) = AFTER_CR) \<and>
         (state (run g k' signals (construct k' t u)) = FIELD_START \<or>
          state (run g k' signals (construct k' t u)) = AFTER_CR)"
proof -
  note f = feed_forget [OF assms, of k timed_chunks now]
  have s: "\<And>g. (\<And>x. g (forget x) = g x) \<Longrightarrow>
            g (feed k timed_chunks s) = g (onProgress k now (concat (map snd timed_chunks)) s)"
    using f by metis
  show ?thesis
    by (intro conjI f feed_state [OF assms] s reachable_state) (simp_all add: forget_sel)
qed

theorem chunking_invisible_witness:
  "(state opened = FIELD_START \<or> state opened = AFTER_CR) \<and>
   effects (feed quiet [(6, ''id: 7'' @ [LF] @ ''da''), (7, ''ta: x'' @ [CR]), (8, [LF, CR]), (9, [LF])] opened) =
     effects (onProgress quiet 6
                (concat (map snd [(6, ''id: 7'' @ [LF] @ ''da''), (7, ''ta: x'' @ [CR]), (8, [LF, CR]), (9 :: int, [LF])]))
                opened) \<and>
   effects (feed quiet [(6, ''id: 7'' @ [LF] @ ''da''), (7, ''ta: x'' @ [CR]), (8, [LF, CR]), (9, [LF])] opened) =
     effects opened @ [Dispatched OPEN (MessageEvent ''message'' ''x'' ''7'')]"
proof -
  have e: "effects (feed quiet [(6, ''id: 7'' @ [LF] @ ''da''), (7, ''ta: x'' @ [CR]), (8, [LF, CR]), (9, [LF])] opened) =
     effects opened @ [Dispatched OPEN (MessageEvent ''message'' ''x'' ''7'')]"
    by code_simp
  show ?thesis
    using chunking_invisible [OF disjI1 [OF opened_sel(4)], of quiet
            "[(6, ''id: 7'' @ [LF] @ ''da''), (7, ''ta: x'' @ [CR]), (8, [LF, CR]), (9, [LF])]" 6] e
    by (simp add: opened_sel)
qed







end
